theory Spec2Isabelle
  imports Main
begin

section \<open>Strings, bytes and runes\<close>

text \<open>
  A Go \<^verbatim>\<open>string\<close> and a Go \<^verbatim>\<open>[]byte\<close> are sequences of 8-bit bytes. A HOL
  \<^typ>\<open>char\<close> is exactly one byte, so both are modelled by \<^typ>\<open>string\<close>;
  \<^term>\<open>of_char\<close> reads a byte as a number in \<open>0..255\<close> and \<^term>\<open>char_of\<close> is the
  conversion \<^verbatim>\<open>byte(x)\<close>, which keeps the low eight bits. A \<^verbatim>\<open>rune\<close> is an
  \<^verbatim>\<open>int32\<close>; every rune of the program is a comparison operand or comes out of
  the UTF-8 decoder, so no rune arithmetic can overflow and \<^typ>\<open>int\<close> models it.
\<close>

type_synonym byte = char
type_synonym rune = int

definition RuneError :: rune where
  "RuneError = 0xFFFD"

subsection \<open>UTF-8, as the Go runtime reads and writes it\<close>

text \<open>
  \<^verbatim>\<open>for _, r := range text\<close> decodes one UTF-8 sequence per iteration; an invalid
  sequence yields \<^verbatim>\<open>U+FFFD\<close> and advances by one byte. \<open>firstByte\<close> is the
  \<^verbatim>\<open>first\<close> table of package \<^verbatim>\<open>unicode/utf8\<close> together with its accept ranges:
  the size of the sequence and the bounds of the second byte.
  Masks and shifts are written arithmetically: \<^verbatim>\<open>x & 0x3F\<close> is \<open>x mod 64\<close>,
  \<^verbatim>\<open>x << 6\<close> is \<open>x * 64\<close>, and \<^verbatim>\<open>|\<close> of bit-disjoint operands is \<open>+\<close>.
\<close>

datatype firstInfo = AS | XX | Multi nat int int

definition firstByte :: "byte \<Rightarrow> firstInfo" where
  "firstByte s0 =
     (let b = (of_char s0 :: int) in
      if b < 0x80 then AS
      else if b < 0xC2 then XX
      else if b \<le> 0xDF then Multi 2 0x80 0xBF
      else if b = 0xE0 then Multi 3 0xA0 0xBF
      else if b \<le> 0xEC then Multi 3 0x80 0xBF
      else if b = 0xED then Multi 3 0x80 0x9F
      else if b \<le> 0xEF then Multi 3 0x80 0xBF
      else if b = 0xF0 then Multi 4 0x90 0xBF
      else if b \<le> 0xF3 then Multi 4 0x80 0xBF
      else if b = 0xF4 then Multi 4 0x80 0x8F
      else XX)"

definition decodeRune :: "string \<Rightarrow> rune \<times> nat" where
  "decodeRune s =
     (case s of
        [] \<Rightarrow> (RuneError, 0)
      | s0 # _ \<Rightarrow>
          (case firstByte s0 of
             AS \<Rightarrow> (of_char s0, 1)
           | XX \<Rightarrow> (RuneError, 1)
           | Multi sz lo hi \<Rightarrow>
               if length s < sz then (RuneError, 1)
               else
                 let s1 = (of_char (s ! 1) :: int) in
                 if s1 < lo \<or> hi < s1 then (RuneError, 1)
                 else if sz \<le> 2 then (of_char s0 mod 32 * 64 + s1 mod 64, 2)
                 else
                   let s2 = (of_char (s ! 2) :: int) in
                   if s2 < 0x80 \<or> 0xBF < s2 then (RuneError, 1)
                   else if sz \<le> 3 then
                     (of_char s0 mod 16 * 4096 + s1 mod 64 * 64 + s2 mod 64, 3)
                   else
                     let s3 = (of_char (s ! 3) :: int) in
                     if s3 < 0x80 \<or> 0xBF < s3 then (RuneError, 1)
                     else (of_char s0 mod 8 * 262144 + s1 mod 64 * 4096
                             + s2 mod 64 * 64 + s3 mod 64, 4)))"

text \<open>The sequence of runes that a \<^verbatim>\<open>range\<close> loop over the string visits.\<close>

function rangeRunes :: "string \<Rightarrow> rune list" where
  "rangeRunes s =
     (if s = [] then []
      else fst (decodeRune s) # rangeRunes (drop (snd (decodeRune s)) s))"
  by pat_completeness auto
termination
proof (relation "measure length")
  show "wf (measure length)" by simp
next
  fix s :: string
  assume "s \<noteq> []"
  then have "0 < snd (decodeRune s)"
    by (cases s) (auto simp: decodeRune_def Let_def split: firstInfo.splits)
  with \<open>s \<noteq> []\<close> show "(drop (snd (decodeRune s)) s, s) \<in> measure length"
    by (cases s) auto
qed

declare rangeRunes.simps [simp del]

text \<open>
  \<^verbatim>\<open>strings.Builder.WriteRune\<close> appends \<^verbatim>\<open>utf8.AppendRune\<close> of the rune: one to four
  bytes, with \<^verbatim>\<open>U+FFFD\<close> written for a negative rune, a surrogate or a value above
  \<^verbatim>\<open>U+10FFFF\<close>.
\<close>

definition encode3 :: "rune \<Rightarrow> string" where
  "encode3 r = [char_of (0xE0 + r div 4096), char_of (0x80 + r div 64 mod 64),
                char_of (0x80 + r mod 64)]"

definition encodeRune :: "rune \<Rightarrow> string" where
  "encodeRune r =
     (if 0 \<le> r \<and> r \<le> 0x7F then [char_of r]
      else if 0 \<le> r \<and> r \<le> 0x7FF then
        [char_of (0xC0 + r div 64), char_of (0x80 + r mod 64)]
      else if r < 0 \<or> 0x10FFFF < r \<or> (0xD800 \<le> r \<and> r \<le> 0xDFFF) then encode3 RuneError
      else if r \<le> 0xFFFF then encode3 r
      else [char_of (0xF0 + r div 262144), char_of (0x80 + r div 4096 mod 64),
            char_of (0x80 + r div 64 mod 64), char_of (0x80 + r mod 64)])"

section \<open>Dictionary builder\<close>

definition minDictChars :: nat where
  "minDictChars = 256"

definition maxPairs :: nat where
  "maxPairs = 4096"

definition base64Charset :: string where
  "base64Charset = ''ABCDEFGHIJKLMNOPQRSTUVWXYZabcdefghijklmnopqrstuvwxyz0123456789+/''"

definition isChineseChar :: "rune \<Rightarrow> bool" where
  "isChineseChar r \<longleftrightarrow>
     (r \<ge> 0x4E00 \<and> r \<le> 0x9FFF) \<or>
     (r \<ge> 0x3400 \<and> r \<le> 0x4DBF) \<or>
     (r \<ge> 0x20000 \<and> r \<le> 0x2A6DF)"

text \<open>
  The loop of \<^verbatim>\<open>extractChineseCharacters\<close>: \<open>seen\<close> is the \<^verbatim>\<open>map[rune]bool\<close>,
  whose lookup of an absent key is \<^verbatim>\<open>false\<close>, and \<open>chars\<close> the slice appended to.
\<close>

fun extractLoop :: "rune list \<Rightarrow> (rune \<Rightarrow> bool) \<Rightarrow> rune list \<Rightarrow> rune list" where
  "extractLoop [] seen chars = chars"
| "extractLoop (r # rs) seen chars =
     (if \<not> seen r \<and> isChineseChar r
      then extractLoop rs (seen(r := True)) (chars @ [r])
      else extractLoop rs seen chars)"

definition extractChineseCharacters :: "string \<Rightarrow> rune list" where
  "extractChineseCharacters text = extractLoop (rangeRunes text) (\<lambda>_. False) []"

text \<open>
  The codec holds the two Go maps. \<open>NewCodec\<close> makes both empty.
\<close>

record Codec =
  pairToRune :: "string \<rightharpoonup> rune"
  runeToPair :: "rune \<rightharpoonup> string"

definition NewCodec :: Codec where
  "NewCodec = \<lparr>pairToRune = Map.empty, runeToPair = Map.empty\<rparr>"

text \<open>
  \<^verbatim>\<open>buildMapping\<close>: the inner loop over \<open>j\<close> and the outer loop over \<open>i\<close>, both
  guarded by \<^verbatim>\<open>idx < len(chars)\<close>; the codec and \<open>idx\<close> are the state they update.
\<close>

function buildInner :: "Codec \<Rightarrow> rune list \<Rightarrow> nat \<Rightarrow> nat \<Rightarrow> nat \<Rightarrow> Codec \<times> nat" where
  "buildInner c chars i j idx =
     (if j < 64 \<and> idx < length chars then
        let pair = [base64Charset ! i, base64Charset ! j];
            char = chars ! idx
        in buildInner
             (c\<lparr>pairToRune := (pairToRune c)(pair \<mapsto> char),
                runeToPair := (runeToPair c)(char \<mapsto> pair)\<rparr>)
             chars i (j + 1) (idx + 1)
      else (c, idx))"
  by pat_completeness auto
termination
  by (relation "measure (\<lambda>(c, chars, i, j, idx). 64 - j)") auto

function buildOuter :: "Codec \<Rightarrow> rune list \<Rightarrow> nat \<Rightarrow> nat \<Rightarrow> Codec" where
  "buildOuter c chars i idx =
     (if i < 64 \<and> idx < length chars then
        buildOuter (fst (buildInner c chars i 0 idx)) chars (i + 1)
          (snd (buildInner c chars i 0 idx))
      else c)"
  by pat_completeness auto
termination
  by (relation "measure (\<lambda>(c, chars, i, idx). 64 - i)") auto

declare buildInner.simps [simp del] buildOuter.simps [simp del]

definition buildMapping :: "Codec \<Rightarrow> rune list \<Rightarrow> Codec" where
  "buildMapping c chars = buildOuter c chars 0 0"

text \<open>
  The errors of the program are \<^verbatim>\<open>fmt.Errorf\<close> values; the model keeps their kind and
  the numbers they carry. \<open>LoadDictionary\<close> takes the result of \<^verbatim>\<open>os.ReadFile\<close>
  (\<open>None\<close> when the read fails) in place of the file name; the statistics it prints
  are not modelled.
\<close>

datatype error =
    ReadFailed
  | InsufficientDictionary nat nat
  | CorruptInput

definition LoadDictionary :: "Codec \<Rightarrow> string option \<Rightarrow> error + Codec" where
  "LoadDictionary c file =
     (case file of
        None \<Rightarrow> Inl ReadFailed
      | Some content \<Rightarrow>
          let uniqueChars = extractChineseCharacters content in
          if length uniqueChars < minDictChars
          then Inl (InsufficientDictionary (length uniqueChars) minDictChars)
          else Inr (buildMapping c uniqueChars))"

section \<open>Standard base64, as package encoding/base64 implements it\<close>

text \<open>
  \<^verbatim>\<open>strings.IndexByte\<close>: the index of the first occurrence of the byte, or \<open>-1\<close>.
\<close>

fun IndexByte :: "string \<Rightarrow> byte \<Rightarrow> int" where
  "IndexByte [] c = - 1"
| "IndexByte (x # xs) c =
     (if x = c then 0 else if IndexByte xs c = - 1 then - 1 else IndexByte xs c + 1)"

text \<open>
  \<^verbatim>\<open>base64.StdEncoding\<close> uses the same 64 characters as \<open>base64Charset\<close>, with
  \<^verbatim>\<open>=\<close> for padding. \<open>EncodeToString\<close> turns each three bytes into four characters
  and pads a last group of one or two bytes.
\<close>

definition encodeStd :: string where
  "encodeStd = ''ABCDEFGHIJKLMNOPQRSTUVWXYZabcdefghijklmnopqrstuvwxyz0123456789+/''"

definition sextet :: "int \<Rightarrow> byte" where
  "sextet v = encodeStd ! nat (v mod 64)"

fun EncodeToString :: "byte list \<Rightarrow> string" where
  "EncodeToString [] = []"
| "EncodeToString [a] =
     (let val = of_char a * 65536
      in [sextet (val div 262144), sextet (val div 4096), CHR ''='', CHR ''=''])"
| "EncodeToString [a, b] =
     (let val = of_char a * 65536 + of_char b * 256
      in [sextet (val div 262144), sextet (val div 4096), sextet (val div 64), CHR ''=''])"
| "EncodeToString (a # b # c # rest) =
     (let val = of_char a * 65536 + of_char b * 256 + of_char c
      in [sextet (val div 262144), sextet (val div 4096), sextet (val div 64), sextet val]
         @ EncodeToString rest)"

text \<open>
  The decoder: \<open>decodeMap\<close> gives the value of an alphabet character and \<open>0xFF\<close> for
  any other byte. \<open>decodeFrom\<close> is the loop of \<^verbatim>\<open>Decode\<close> around \<^verbatim>\<open>decodeQuantum\<close>:
  \<open>dbuf\<close> holds the digits of the current quantum; carriage returns and line feeds are
  skipped; a quantum may end in \<^verbatim>\<open>==\<close> after two digits or \<^verbatim>\<open>=\<close> after three, and
  then only line breaks may follow; the input must not end inside a quantum. The
  decoder is not strict: unused low bits of a padded quantum are dropped. The byte
  offset that \<^verbatim>\<open>CorruptInputError\<close> carries is not modelled.
\<close>

definition decodeMap :: "byte \<Rightarrow> int" where
  "decodeMap c = (if IndexByte encodeStd c = - 1 then 0xFF else IndexByte encodeStd c)"

definition isNewline :: "byte \<Rightarrow> bool" where
  "isNewline c \<longleftrightarrow> c = CHR 0x0A \<or> c = CHR 0x0D"

definition digitAt :: "int list \<Rightarrow> nat \<Rightarrow> int" where
  "digitAt dbuf k = (if k < length dbuf then dbuf ! k else 0)"

definition quantumBytes :: "int list \<Rightarrow> byte list" where
  "quantumBytes dbuf =
     (let val = digitAt dbuf 0 * 262144 + digitAt dbuf 1 * 4096 + digitAt dbuf 2 * 64
                + digitAt dbuf 3
      in take (length dbuf - 1) [char_of (val div 65536), char_of (val div 256), char_of val])"

fun decodeFrom :: "int list \<Rightarrow> string \<Rightarrow> error + byte list" where
  "decodeFrom dbuf [] = (if dbuf = [] then Inr [] else Inl CorruptInput)"
| "decodeFrom dbuf (c # src) =
     (if decodeMap c \<noteq> 0xFF then
        (if length dbuf = 3 then
           (case decodeFrom [] src of
              Inl e \<Rightarrow> Inl e
            | Inr bs \<Rightarrow> Inr (quantumBytes (dbuf @ [decodeMap c]) @ bs))
         else decodeFrom (dbuf @ [decodeMap c]) src)
      else if isNewline c then decodeFrom dbuf src
      else if c \<noteq> CHR ''='' then Inl CorruptInput
      else if length dbuf < 2 then Inl CorruptInput
      else if length dbuf = 2 then
        (case dropWhile isNewline src of
           [] \<Rightarrow> Inl CorruptInput
         | c2 # src2 \<Rightarrow>
             if c2 \<noteq> CHR ''='' then Inl CorruptInput
             else if dropWhile isNewline src2 \<noteq> [] then Inl CorruptInput
             else Inr (quantumBytes dbuf))
      else if dropWhile isNewline src \<noteq> [] then Inl CorruptInput
      else Inr (quantumBytes dbuf))"

definition DecodeString :: "string \<Rightarrow> error + byte list" where
  "DecodeString s = decodeFrom [] s"

section \<open>Transform engine\<close>

definition isValidBase64Pair :: "string \<Rightarrow> bool" where
  "isValidBase64Pair pair \<longleftrightarrow>
     length pair = 2 \<and>
     IndexByte base64Charset (pair ! 0) \<noteq> - 1 \<and>
     IndexByte base64Charset (pair ! 1) \<noteq> - 1"

text \<open>
  \<open>paddedText\<close> is the variable \<^verbatim>\<open>text\<close> of \<^verbatim>\<open>encodeData\<close> after the padding step;
  \<open>intermediateText\<close> is its value before.
\<close>

definition intermediateText :: "byte list \<Rightarrow> bool \<Rightarrow> string" where
  "intermediateText data useBase64 = (if useBase64 then EncodeToString data else data)"

definition paddedText :: "byte list \<Rightarrow> bool \<Rightarrow> string" where
  "paddedText data useBase64 =
     (let text = intermediateText data useBase64
      in if length text mod 2 \<noteq> 0 then text @ ''='' else text)"

text \<open>
  The loop of \<^verbatim>\<open>encodeData\<close>, with the builder \<open>result\<close> and the counter
  \<open>unmapped\<close> as state; it returns both.
\<close>

function encodeLoop :: "Codec \<Rightarrow> string \<Rightarrow> nat \<Rightarrow> string \<Rightarrow> nat \<Rightarrow> string \<times> nat" where
  "encodeLoop c text i result unmapped =
     (if int i < int (length text) - 1 then
        let pair = take 2 (drop i text) in
        if isValidBase64Pair pair then
          (case pairToRune c pair of
             Some char \<Rightarrow> encodeLoop c text (i + 2) (result @ encodeRune char) unmapped
           | None \<Rightarrow> encodeLoop c text (i + 2) (result @ pair) (unmapped + 1))
        else encodeLoop c text (i + 2) (result @ pair) unmapped
      else (result, unmapped))"
  by pat_completeness auto
termination
  by (relation "measure (\<lambda>(c, text, i, result, unmapped). length text - i)") auto

declare encodeLoop.simps [simp del]

definition encodeRun :: "Codec \<Rightarrow> byte list \<Rightarrow> bool \<Rightarrow> string \<times> nat" where
  "encodeRun c data useBase64 = encodeLoop c (paddedText data useBase64) 0 [] 0"

definition encodeData :: "Codec \<Rightarrow> byte list \<Rightarrow> bool \<Rightarrow> string" where
  "encodeData c data useBase64 = fst (encodeRun c data useBase64)"

text \<open>
  The loop of \<^verbatim>\<open>decodeData\<close> over the runes of the text, with the builder
  \<open>base64Text\<close> as state.
\<close>

fun decodeLoop :: "Codec \<Rightarrow> rune list \<Rightarrow> string \<Rightarrow> string" where
  "decodeLoop c [] base64Text = base64Text"
| "decodeLoop c (r # rs) base64Text =
     (case runeToPair c r of
        Some pair \<Rightarrow> decodeLoop c rs (base64Text @ pair)
      | None \<Rightarrow> decodeLoop c rs (base64Text @ encodeRune r))"

definition reconstruct :: "Codec \<Rightarrow> string \<Rightarrow> string" where
  "reconstruct c text = decodeLoop c (rangeRunes text) []"

definition decodeData :: "Codec \<Rightarrow> string \<Rightarrow> bool \<Rightarrow> error + byte list" where
  "decodeData c text useBase64 =
     (let base64Str = reconstruct c text
      in if useBase64 then DecodeString base64Str else Inr base64Str)"

section \<open>Notions of the specification\<close>

text \<open>
  A rune that UTF-8 can represent: a Unicode scalar value. Every qualifying character
  is one.
\<close>

definition validRune :: "rune \<Rightarrow> bool" where
  "validRune r \<longleftrightarrow> 0 \<le> r \<and> r \<le> 0x10FFFF \<and> \<not> (0xD800 \<le> r \<and> r \<le> 0xDFFF)"

text \<open>The text that holds the given code points, in order.\<close>

definition utf8 :: "rune list \<Rightarrow> string" where
  "utf8 rs = concat (map encodeRune rs)"

text \<open>
  Each element once, at its first occurrence, in the order of first appearance.
\<close>

fun firstOccurrences :: "'a list \<Rightarrow> 'a list" where
  "firstOccurrences [] = []"
| "firstOccurrences (x # xs) = x # firstOccurrences (filter (\<lambda>y. y \<noteq> x) xs)"

text \<open>
  A sample dictionary: the first \<open>n\<close> code points of the CJK Unified Ideographs block,
  in increasing order (qualifying and distinct for \<open>n \<le> 20992\<close>).
\<close>

definition cjkBlock :: "nat \<Rightarrow> rune list" where
  "cjkBlock n = map (\<lambda>k. 0x4E00 + int k) [0..<n]"

text \<open>
  The \<open>k\<close>-th pair in row-major order, and the single assignment that the body of the
  inner loop of \<^verbatim>\<open>buildMapping\<close> performs for it.
\<close>

definition pairAt :: "nat \<Rightarrow> string" where
  "pairAt k = [base64Charset ! (k div 64), base64Charset ! (k mod 64)]"

definition assignPair :: "rune list \<Rightarrow> Codec \<Rightarrow> nat \<Rightarrow> Codec" where
  "assignPair chars c k =
     c\<lparr>pairToRune := (pairToRune c)(pairAt k \<mapsto> chars ! k),
       runeToPair := (runeToPair c)(chars ! k \<mapsto> pairAt k)\<rparr>"

text \<open>
  The encoder, in the words of the specification: the consecutive two-character
  segments of a text, what is emitted for a segment, and which segments count as
  unmapped.
\<close>

fun segments :: "string \<Rightarrow> string list" where
  "segments (a # b # rest) = [a, b] # segments rest"
| "segments _ = []"

definition inAlphabet :: "byte \<Rightarrow> bool" where
  "inAlphabet ch \<longleftrightarrow> ch \<in> set base64Charset"

definition emitSegment :: "Codec \<Rightarrow> string \<Rightarrow> string" where
  "emitSegment c seg =
     (if inAlphabet (seg ! 0) \<and> inAlphabet (seg ! 1)
      then (case pairToRune c seg of Some r \<Rightarrow> encodeRune r | None \<Rightarrow> seg)
      else seg)"

definition unmappedSegment :: "Codec \<Rightarrow> string \<Rightarrow> bool" where
  "unmappedSegment c seg \<longleftrightarrow>
     inAlphabet (seg ! 0) \<and> inAlphabet (seg ! 1) \<and> pairToRune c seg = None"

text \<open>
  The decoder, in the words of the specification: what is emitted for one code point.
\<close>

definition decodePiece :: "Codec \<Rightarrow> rune \<Rightarrow> string" where
  "decodePiece c r = (case runeToPair c r of Some pair \<Rightarrow> pair | None \<Rightarrow> encodeRune r)"

text \<open>
  Valid standard base64, in the words of RFC 4648 as \<^verbatim>\<open>StdEncoding\<close> reads them: after
  carriage returns and line feeds are dropped, the text is a sequence of groups of four
  alphabet characters, where the last group may end in \<^verbatim>\<open>=\<close> or \<^verbatim>\<open>==\<close>.
\<close>

definition inStd :: "byte \<Rightarrow> bool" where
  "inStd ch \<longleftrightarrow> ch \<in> set encodeStd"

fun base64Groups :: "string \<Rightarrow> bool" where
  "base64Groups [] = True"
| "base64Groups [a, b, c, d] =
     (inStd a \<and> inStd b \<and>
      ((c = CHR ''='' \<and> d = CHR ''='') \<or> (inStd c \<and> (d = CHR ''='' \<or> inStd d))))"
| "base64Groups (a # b # c # d # rest) =
     (inStd a \<and> inStd b \<and> inStd c \<and> inStd d \<and> base64Groups rest)"
| "base64Groups _ = False"

definition validStdBase64 :: "string \<Rightarrow> bool" where
  "validStdBase64 s = base64Groups (filter (\<lambda>c. \<not> isNewline c) s)"

text \<open>
  The digits already read of the group in progress, each stood for by \<^verbatim>\<open>A\<close>: validity
  depends on an alphabet character only through its being one.
\<close>

definition pending :: "nat \<Rightarrow> string" where
  "pending j = replicate j CHR ''A''"

text \<open>
  A text at whose start a rune begins whatever precedes it: it is empty, or its first
  byte is not a UTF-8 continuation byte (\<open>0x80..0xBF\<close>).
\<close>

definition boundary :: "string \<Rightarrow> bool" where
  "boundary v \<longleftrightarrow>
     (case v of [] \<Rightarrow> True | x # _ \<Rightarrow> (of_char x :: int) < 0x80 \<or> 0xBF < (of_char x :: int))"

section \<open>UTF-8 round trip\<close>

lemma mod_shift: "0 \<le> x \<Longrightarrow> x < m \<Longrightarrow> (m * k + x) mod m = (x::int)"
  by simp

lemma decode_ascii:
  "0 \<le> a \<Longrightarrow> a < 128 \<Longrightarrow> decodeRune (char_of a # rest) = (a, 1)"
  by (simp add: decodeRune_def firstByte_def)

lemma decode_two:
  assumes "2 \<le> a" "a < 32" "0 \<le> b" "b < 64"
  shows "decodeRune (char_of (0xC0 + a) # char_of (0x80 + b) # rest) = (a * 64 + b, 2)"
proof -
  have A: "of_char (char_of (0xC0 + a)) = 0xC0 + a" using assms by simp
  have B: "of_char (char_of (0x80 + b)) = 0x80 + b" using assms by simp
  have fb: "firstByte (char_of (0xC0 + a)) = Multi 2 0x80 0xBF"
    unfolding firstByte_def A Let_def using assms by simp
  have ma: "(0xC0 + a) mod 32 = a" using mod_shift [of a 32 6] assms by simp
  have mb: "(0x80 + b) mod 64 = b" using mod_shift [of b 64 2] assms by simp
  show ?thesis
    unfolding decodeRune_def using assms by (simp add: fb A B ma mb del: of_char_of)
qed

lemma decode_three:
  assumes "0 \<le> a" "a < 16" "0 \<le> b" "b < 64" "0 \<le> c" "c < 64"
    and lo: "a = 0 \<Longrightarrow> 32 \<le> b" and hi: "a = 13 \<Longrightarrow> b < 32"
  shows "decodeRune (char_of (0xE0 + a) # char_of (0x80 + b) # char_of (0x80 + c) # rest)
         = (a * 4096 + b * 64 + c, 3)"
proof -
  have A: "of_char (char_of (0xE0 + a)) = 0xE0 + a" using assms(1-6) by simp
  have B: "of_char (char_of (0x80 + b)) = 0x80 + b" using assms(1-6) by simp
  have C: "of_char (char_of (0x80 + c)) = 0x80 + c" using assms(1-6) by simp
  have ma: "(0xE0 + a) mod 16 = a" using mod_shift [of a 16 14] assms(1-6) by simp
  have mb: "(0x80 + b) mod 64 = b" using mod_shift [of b 64 2] assms(1-6) by simp
  have mc: "(0x80 + c) mod 64 = c" using mod_shift [of c 64 2] assms(1-6) by simp
  consider "a = 0" | "a = 13" | "a \<noteq> 0" "a \<noteq> 13" by blast
  then show ?thesis
  proof cases
    case 1
    then have fb: "firstByte (char_of (0xE0 + a)) = Multi 3 0xA0 0xBF"
      unfolding firstByte_def A Let_def by simp
    show ?thesis
      unfolding decodeRune_def using lo [OF 1] assms(1-6)
      by (simp add: fb A B C ma mb mc del: of_char_of)
  next
    case 2
    then have fb: "firstByte (char_of (0xE0 + a)) = Multi 3 0x80 0x9F"
      unfolding firstByte_def A Let_def by simp
    show ?thesis
      unfolding decodeRune_def using hi [OF 2] assms(1-6)
      by (simp add: fb A B C ma mb mc del: of_char_of)
  next
    case 3
    then have fb: "firstByte (char_of (0xE0 + a)) = Multi 3 0x80 0xBF"
      unfolding firstByte_def A Let_def using assms(1,2) by simp
    show ?thesis
      unfolding decodeRune_def using assms(1-6)
      by (simp add: fb A B C ma mb mc del: of_char_of)
  qed
qed

lemma decode_four:
  assumes "0 \<le> a" "a \<le> 4" "0 \<le> b" "b < 64" "0 \<le> c" "c < 64" "0 \<le> d" "d < 64"
    and lo: "a = 0 \<Longrightarrow> 16 \<le> b" and hi: "a = 4 \<Longrightarrow> b < 16"
  shows "decodeRune (char_of (0xF0 + a) # char_of (0x80 + b) # char_of (0x80 + c)
                      # char_of (0x80 + d) # rest)
         = (a * 262144 + b * 4096 + c * 64 + d, 4)"
proof -
  have A: "of_char (char_of (0xF0 + a)) = 0xF0 + a" using assms(1-8) by simp
  have B: "of_char (char_of (0x80 + b)) = 0x80 + b" using assms(1-8) by simp
  have C: "of_char (char_of (0x80 + c)) = 0x80 + c" using assms(1-8) by simp
  have D: "of_char (char_of (0x80 + d)) = 0x80 + d" using assms(1-8) by simp
  have ma: "(0xF0 + a) mod 8 = a" using mod_shift [of a 8 30] assms(1-8) by simp
  have mb: "(0x80 + b) mod 64 = b" using mod_shift [of b 64 2] assms(1-8) by simp
  have mc: "(0x80 + c) mod 64 = c" using mod_shift [of c 64 2] assms(1-8) by simp
  have md: "(0x80 + d) mod 64 = d" using mod_shift [of d 64 2] assms(1-8) by simp
  consider "a = 0" | "a = 4" | "a \<noteq> 0" "a \<noteq> 4" by blast
  then show ?thesis
  proof cases
    case 1
    then have fb: "firstByte (char_of (0xF0 + a)) = Multi 4 0x90 0xBF"
      unfolding firstByte_def A Let_def by simp
    show ?thesis
      unfolding decodeRune_def using lo [OF 1] assms(1-8)
      by (simp add: fb A B C D ma mb mc md del: of_char_of)
  next
    case 2
    then have fb: "firstByte (char_of (0xF0 + a)) = Multi 4 0x80 0x8F"
      unfolding firstByte_def A Let_def by simp
    show ?thesis
      unfolding decodeRune_def using hi [OF 2] assms(1-8)
      by (simp add: fb A B C D ma mb mc md del: of_char_of)
  next
    case 3
    then have fb: "firstByte (char_of (0xF0 + a)) = Multi 4 0x80 0xBF"
      unfolding firstByte_def A Let_def using assms(1,2) by simp
    show ?thesis
      unfolding decodeRune_def using assms(1-8)
      by (simp add: fb A B C D ma mb mc md del: of_char_of)
  qed
qed

text \<open>
  Splitting a code point into six-bit groups. The facts are stated over the quotients
  and remainders as variables, so that linear arithmetic sees no division.
\<close>

lemma dm64: "(x::int) = 64 * (x div 64) + x mod 64"
  by simp

lemma div_4096: "(r::int) div 4096 = r div 64 div 64"
  by (simp add: zdiv_zmult2_eq)

lemma div_262144: "(r::int) div 262144 = r div 64 div 64 div 64"
  by (simp add: zdiv_zmult2_eq)

lemma aux3:
  fixes r q m a b :: int
  assumes "r = 64 * q + m" "q = 64 * a + b" "0 \<le> m" "m < 64" "0 \<le> b" "b < 64"
  shows "a * 4096 + b * 64 + m = r"
    and "2048 \<le> r \<Longrightarrow> a = 0 \<Longrightarrow> 32 \<le> b"
    and "r < 55296 \<Longrightarrow> a = 13 \<Longrightarrow> b < 32"
    and "0 \<le> r \<Longrightarrow> r \<le> 65535 \<Longrightarrow> 0 \<le> a \<and> a < 16"
    and "57344 \<le> r \<Longrightarrow> a \<noteq> 13"
  using assms by linarith+

lemma aux4:
  fixes r q m a b c p :: int
  assumes "r = 64 * q + m" "q = 64 * p + c" "p = 64 * a + b" "0 \<le> m" "m < 64"
    "0 \<le> c" "c < 64" "0 \<le> b" "b < 64"
  shows "a * 262144 + b * 4096 + c * 64 + m = r"
    and "65536 \<le> r \<Longrightarrow> a = 0 \<Longrightarrow> 16 \<le> b"
    and "r \<le> 1114111 \<Longrightarrow> a = 4 \<Longrightarrow> b < 16"
    and "0 \<le> r \<Longrightarrow> r \<le> 1114111 \<Longrightarrow> 0 \<le> a \<and> a \<le> 4"
  using assms by linarith+

lemmas r3 = aux3 [OF dm64 dm64 pos_mod_sign pos_mod_bound pos_mod_sign pos_mod_bound,
  simplified, folded div_4096]

lemmas r4 = aux4 [OF dm64 dm64 dm64 pos_mod_sign pos_mod_bound pos_mod_sign pos_mod_bound
  pos_mod_sign pos_mod_bound, simplified, folded div_4096 div_262144]

lemma two_range:
  fixes r :: int
  assumes "0x80 \<le> r" "r \<le> 0x7FF"
  shows "2 \<le> r div 64 \<and> r div 64 < 32"
proof -
  have "\<And>q m::int. r = 64 * q + m \<Longrightarrow> 0 \<le> m \<Longrightarrow> m < 64 \<Longrightarrow> 2 \<le> q \<and> q < 32"
    using assms by linarith
  from this [OF dm64] show ?thesis by simp
qed

lemma decodeRune_encodeRune:
  assumes "validRune r"
  shows "decodeRune (encodeRune r @ rest) = (r, length (encodeRune r))"
proof -
  consider "r \<le> 0x7F" | "0x80 \<le> r" "r \<le> 0x7FF" | "0x800 \<le> r" "r \<le> 0xFFFF" | "0x10000 \<le> r"
    by linarith
  then show ?thesis
  proof cases
    case 1
    then show ?thesis using assms decode_ascii [of r rest]
      by (simp add: encodeRune_def validRune_def)
  next
    case 2
    have e: "encodeRune r = [char_of (0xC0 + r div 64), char_of (0x80 + r mod 64)]"
      using 2 by (simp add: encodeRune_def)
    show ?thesis unfolding e
      using decode_two [of "r div 64" "r mod 64" rest] two_range [OF 2]
      by simp
  next
    case 3
    have e: "encodeRune r = [char_of (0xE0 + r div 4096), char_of (0x80 + r div 64 mod 64),
                char_of (0x80 + r mod 64)]"
    proof -
      have "\<not> (0 \<le> r \<and> r \<le> 0x7F)" "\<not> (0 \<le> r \<and> r \<le> 0x7FF)"
        "\<not> (r < 0 \<or> 0x10FFFF < r \<or> (0xD800 \<le> r \<and> r \<le> 0xDFFF))"
        using 3 assms by (auto simp: validRune_def)
      then show ?thesis using 3(2) by (simp only: encodeRune_def encode3_def if_False if_True)
    qed
    have s: "r < 0xD800 \<or> 0xE000 \<le> r" using assms by (auto simp: validRune_def)
    have "decodeRune (char_of (0xE0 + r div 4096) # char_of (0x80 + r div 64 mod 64) #
                char_of (0x80 + r mod 64) # rest)
          = (r div 4096 * 4096 + r div 64 mod 64 * 64 + r mod 64, 3)"
    proof (rule decode_three)
      show "0 \<le> r div 4096" "r div 4096 < 16"
        using r3(4) [of r] 3 assms by (simp_all add: validRune_def)
      show "0 \<le> r div 64 mod 64" "r div 64 mod 64 < 64" "0 \<le> r mod 64" "r mod 64 < 64"
        by simp_all
      show "r div 4096 = 0 \<Longrightarrow> 32 \<le> r div 64 mod 64" using r3(2) [OF 3(1)] .
      show "r div 4096 = 13 \<Longrightarrow> r div 64 mod 64 < 32"
        using r3(3) [of r] r3(5) [of r] s by blast
    qed
    then show ?thesis unfolding e r3(1) by simp
  next
    case 4
    have e: "encodeRune r = [char_of (0xF0 + r div 262144), char_of (0x80 + r div 4096 mod 64),
            char_of (0x80 + r div 64 mod 64), char_of (0x80 + r mod 64)]"
    proof -
      have "\<not> (0 \<le> r \<and> r \<le> 0x7F)" "\<not> (0 \<le> r \<and> r \<le> 0x7FF)"
        "\<not> (r < 0 \<or> 0x10FFFF < r \<or> (0xD800 \<le> r \<and> r \<le> 0xDFFF))"
        "\<not> r \<le> 0xFFFF"
        using 4 assms by (auto simp: validRune_def)
      then show ?thesis by (simp only: encodeRune_def if_False)
    qed
    have le: "r \<le> 0x10FFFF" "0 \<le> r" using assms by (simp_all add: validRune_def)
    have "decodeRune (char_of (0xF0 + r div 262144) # char_of (0x80 + r div 4096 mod 64) #
            char_of (0x80 + r div 64 mod 64) # char_of (0x80 + r mod 64) # rest)
          = (r div 262144 * 262144 + r div 4096 mod 64 * 4096 + r div 64 mod 64 * 64
             + r mod 64, 4)"
    proof (rule decode_four)
      show "0 \<le> r div 262144" "r div 262144 \<le> 4" using r4(4) [of r] le by simp_all
      show "0 \<le> r div 4096 mod 64" "r div 4096 mod 64 < 64" "0 \<le> r div 64 mod 64"
        "r div 64 mod 64 < 64" "0 \<le> r mod 64" "r mod 64 < 64" by simp_all
      show "r div 262144 = 0 \<Longrightarrow> 16 \<le> r div 4096 mod 64" using r4(2) [OF 4] .
      show "r div 262144 = 4 \<Longrightarrow> r div 4096 mod 64 < 16" using r4(3) [OF le(1)] .
    qed
    then show ?thesis unfolding e r4(1) by simp
  qed
qed

lemma encodeRune_nonempty: "encodeRune r \<noteq> []"
  by (simp add: encodeRune_def encode3_def)

lemma rangeRunes_Nil: "rangeRunes [] = []"
  by (simp add: rangeRunes.simps)

lemma rangeRunes_encodeRune:
  "validRune r \<Longrightarrow> rangeRunes (encodeRune r @ rest) = r # rangeRunes rest"
  by (subst rangeRunes.simps) (simp add: decodeRune_encodeRune encodeRune_nonempty)

lemma rangeRunes_utf8_append:
  "\<forall>r \<in> set rs. validRune r \<Longrightarrow> rangeRunes (utf8 rs @ rest) = rs @ rangeRunes rest"
  by (induction rs) (simp_all add: rangeRunes_encodeRune utf8_def)

lemma rangeRunes_utf8: "\<forall>r \<in> set rs. validRune r \<Longrightarrow> rangeRunes (utf8 rs) = rs"
  using rangeRunes_utf8_append [of rs "[]"] by (simp add: rangeRunes_Nil)

lemma isChineseChar_valid: "isChineseChar r \<Longrightarrow> validRune r"
  by (auto simp: isChineseChar_def validRune_def)

section \<open>Character extraction\<close>

lemma extractLoop_spec:
  "extractLoop rs seen chars =
     chars @ firstOccurrences (filter (\<lambda>r. isChineseChar r \<and> \<not> seen r) rs)"
proof (induction rs arbitrary: seen chars)
  case Nil
  show ?case by simp
next
  case (Cons r rs)
  have eq: "(\<lambda>y. (isChineseChar y \<and> \<not> seen y) \<and> y \<noteq> r)
            = (\<lambda>y. isChineseChar y \<and> \<not> (seen(r := True)) y)"
    by auto
  show ?case
    by (simp add: Cons.IH eq [symmetric] del: fun_upd_apply)
qed

lemma set_firstOccurrences: "set (firstOccurrences xs) = set xs"
  by (induction xs rule: firstOccurrences.induct) auto

lemma distinct_firstOccurrences: "distinct (firstOccurrences xs)"
  by (induction xs rule: firstOccurrences.induct) (auto simp: set_firstOccurrences)

lemma firstOccurrences_distinct: "distinct xs \<Longrightarrow> firstOccurrences xs = xs"
proof (induction xs)
  case Nil
  show ?case by simp
next
  case (Cons x xs)
  then have "filter (\<lambda>y. y \<noteq> x) xs = xs" by (auto intro: filter_True)
  with Cons show ?case by simp
qed

lemma extract_eq:
  "extractChineseCharacters text = firstOccurrences (filter isChineseChar (rangeRunes text))"
  by (simp add: extractChineseCharacters_def extractLoop_spec)

lemma extract_distinct: "distinct (extractChineseCharacters text)"
  by (simp add: extract_eq distinct_firstOccurrences)

lemma extract_set:
  "set (extractChineseCharacters text) = {r \<in> set (rangeRunes text). isChineseChar r}"
  by (auto simp: extract_eq set_firstOccurrences)

lemma extract_utf8:
  assumes "distinct rs" "\<forall>r \<in> set rs. isChineseChar r"
  shows "extractChineseCharacters (utf8 rs) = rs"
proof -
  have "rangeRunes (utf8 rs) = rs"
    using assms(2) by (intro rangeRunes_utf8) (auto dest: isChineseChar_valid)
  moreover have "filter isChineseChar rs = rs" using assms(2) by (auto intro: filter_True)
  ultimately show ?thesis using assms(1) by (simp add: extract_eq firstOccurrences_distinct)
qed

section \<open>Base64 and the alphabet\<close>

lemma length_EncodeToString: "length (EncodeToString data) = 4 * ((length data + 2) div 3)"
proof (induction data rule: EncodeToString.induct)
  case (4 a b c rest)
  have "(length (a # b # c # rest) + 2) div 3 = Suc ((length rest + 2) div 3)" by simp
  with 4 show ?case by (simp add: Let_def)
qed (simp_all add: Let_def)

lemma even_length_EncodeToString: "even (length (EncodeToString data))"
  by (simp add: length_EncodeToString)

lemma IndexByte_nonneg: "- 1 \<le> IndexByte s c"
  by (induction s) auto

lemma IndexByte_iff: "IndexByte s c \<noteq> - 1 \<longleftrightarrow> c \<in> set s"
proof (induction s)
  case Nil show ?case by simp
next
  case (Cons x xs)
  then show ?case using IndexByte_nonneg [of xs c] by auto
qed

lemma IndexByte_nth: "k < length s \<Longrightarrow> distinct s \<Longrightarrow> IndexByte s (s ! k) = int k"
proof (induction s arbitrary: k)
  case Nil then show ?case by simp
next
  case (Cons x xs)
  show ?case
  proof (cases k)
    case 0 then show ?thesis by simp
  next
    case (Suc n)
    with Cons.prems have "n < length xs" "distinct xs" "xs ! n \<noteq> x" by auto
    with Cons.IH [of n] Suc show ?thesis by auto
  qed
qed

lemma distinct_encodeStd: "distinct encodeStd"
  by (simp add: encodeStd_def)

lemma length_encodeStd: "length encodeStd = 64"
  by (simp add: encodeStd_def)

lemma decodeMap_sextet: "decodeMap (sextet v) = v mod 64"
proof -
  have k: "nat (v mod 64) < length encodeStd" by (simp add: length_encodeStd)
  have "IndexByte encodeStd (sextet v) = int (nat (v mod 64))"
    unfolding sextet_def by (rule IndexByte_nth [OF k distinct_encodeStd])
  then show ?thesis by (simp add: decodeMap_def)
qed

lemma decodeMap_pad: "decodeMap CHR ''='' = 0xFF"
  by (simp add: decodeMap_def encodeStd_def)

lemma pad_not_newline: "\<not> isNewline CHR ''=''"
  by (simp add: isNewline_def)

lemma quantum_arith:
  fixes a b c :: int
  assumes "0 \<le> a" "a < 256" "0 \<le> b" "b < 256" "0 \<le> c" "c < 256"
  defines "v \<equiv> a * 65536 + b * 256 + c"
  shows "v div 65536 mod 256 = a"
    and "v div 256 mod 256 = b"
    and "v mod 256 = c"
    and "v div 262144 mod 64 * 262144 + v div 4096 mod 64 * 4096 + v div 64 mod 64 * 64
         + v mod 64 = v"
    and "c = 0 \<Longrightarrow> v mod 64 = 0"
    and "b = 0 \<Longrightarrow> c = 0 \<Longrightarrow> v div 64 mod 64 = 0"
proof -
  have 1: "v div 65536 = a"
    by (rule int_div_pos_eq [where r = "b * 256 + c"]) (use assms in auto)
  have 2: "v div 256 = 256 * a + b"
    by (rule int_div_pos_eq [where r = c]) (use assms in auto)
  have 3: "(256 * a + b) mod 256 = b"
    by (rule int_mod_pos_eq [where q = a]) (use assms in auto)
  show "v div 65536 mod 256 = a" unfolding 1 by (rule mod_pos_pos_trivial) (rule assms)+
  show "v div 256 mod 256 = b" unfolding 2 3 ..
  show "v mod 256 = c"
    by (rule int_mod_pos_eq [where q = "256 * a + b"]) (use assms in auto)
  obtain q m where qm: "a = 4 * q + m" "0 \<le> m" "m < 4"
    using that [of "a div 4" "a mod 4"] by simp
  have q: "0 \<le> q" "q < 64" using qm assms(1,2) by linarith+
  have 4: "v div 262144 = q"
    by (rule int_div_pos_eq [where r = "m * 65536 + b * 256 + c"]) (use assms qm in auto)
  have 5: "v div 262144 mod 64 = v div 262144"
    unfolding 4 by (rule mod_pos_pos_trivial) (rule q)+
  show "v div 262144 mod 64 * 262144 + v div 4096 mod 64 * 4096 + v div 64 mod 64 * 64
         + v mod 64 = v"
    unfolding 5 by (rule r4(1))
  show "v mod 64 = 0" if "c = 0"
    by (rule int_mod_pos_eq [where q = "a * 1024 + b * 4"]) (use that in \<open>auto simp: v_def\<close>)
  show "v div 64 mod 64 = 0" if "b = 0" "c = 0"
  proof -
    have "v div 64 = a * 1024"
      by (rule int_div_pos_eq [where r = 0]) (use that in \<open>auto simp: v_def\<close>)
    moreover have "(a * 1024) mod 64 = 0"
      by (rule int_mod_pos_eq [where q = "a * 16"]) auto
    ultimately show ?thesis by simp
  qed
qed

lemma char_of_eqI: "x mod 256 = of_char ch \<Longrightarrow> char_of (x::int) = ch"
  by (simp add: char_of_eq_iff take_bit_eq_mod)

lemma of_char_int_bounds: "0 \<le> (of_char c :: int)" "(of_char c :: int) < 256"
proof -
  have "(of_char c :: int) mod 256 = of_char c" by simp
  then show "0 \<le> (of_char c :: int)" "(of_char c :: int) < 256"
    by (metis pos_mod_sign zero_less_numeral, metis pos_mod_bound zero_less_numeral)
qed

lemmas qa = quantum_arith [OF of_char_int_bounds of_char_int_bounds of_char_int_bounds]

lemma mod64_ne: "((v::int) mod 64 = 255) = False"
proof -
  have "v mod 64 < 64" by simp
  then show ?thesis by auto
qed

lemma decodeFrom_digit:
  "decodeFrom dbuf (sextet v # src) =
     (if length dbuf = 3 then
        (case decodeFrom [] src of
           Inl e \<Rightarrow> Inl e
         | Inr bs \<Rightarrow> Inr (quantumBytes (dbuf @ [v mod 64]) @ bs))
      else decodeFrom (dbuf @ [v mod 64]) src)"
  by (simp add: decodeMap_sextet mod64_ne cong: sum.case_cong)

lemma decode_full:
  "decodeFrom [] (sextet v0 # sextet v1 # sextet v2 # sextet v3 # rest) =
     (case decodeFrom [] rest of
        Inl e \<Rightarrow> Inl e
      | Inr bs \<Rightarrow> Inr (quantumBytes [v0 mod 64, v1 mod 64, v2 mod 64, v3 mod 64] @ bs))"
  by (simp add: decodeFrom_digit del: decodeFrom.simps cong: sum.case_cong)

lemma decode_pad1:
  "decodeFrom [] [sextet v0, sextet v1, sextet v2, CHR ''=''] =
     Inr (quantumBytes [v0 mod 64, v1 mod 64, v2 mod 64])"
  by (simp add: decodeFrom_digit del: decodeFrom.simps)
     (simp add: decodeMap_pad pad_not_newline)

lemma decode_pad2:
  "decodeFrom [] [sextet v0, sextet v1, CHR ''='', CHR ''=''] =
     Inr (quantumBytes [v0 mod 64, v1 mod 64])"
  by (simp add: decodeFrom_digit del: decodeFrom.simps)
     (simp add: decodeMap_pad pad_not_newline)

lemma quantumBytes4:
  "quantumBytes [d0, d1, d2, d3] =
     [char_of ((d0 * 262144 + d1 * 4096 + d2 * 64 + d3) div 65536),
      char_of ((d0 * 262144 + d1 * 4096 + d2 * 64 + d3) div 256),
      char_of (d0 * 262144 + d1 * 4096 + d2 * 64 + d3)]"
  by (simp add: quantumBytes_def digitAt_def Let_def)

lemma quantumBytes3:
  "quantumBytes [d0, d1, d2] =
     [char_of ((d0 * 262144 + d1 * 4096 + d2 * 64 + 0) div 65536),
      char_of ((d0 * 262144 + d1 * 4096 + d2 * 64 + 0) div 256)]"
  by (simp add: quantumBytes_def digitAt_def Let_def)

lemma quantumBytes2:
  "quantumBytes [d0, d1] = [char_of ((d0 * 262144 + d1 * 4096 + 0 * 64 + 0) div 65536)]"
  by (simp add: quantumBytes_def digitAt_def Let_def)

lemma quantum3:
  fixes a b c :: byte
  defines "v \<equiv> of_char a * 65536 + of_char b * 256 + (of_char c :: int)"
  shows "quantumBytes [v div 262144 mod 64, v div 4096 mod 64, v div 64 mod 64, v mod 64]
         = [a, b, c]"
proof -
  have "char_of (v div 65536) = a" "char_of (v div 256) = b" "char_of v = c"
    unfolding v_def by (rule char_of_eqI, rule qa)+
  then show ?thesis
    unfolding quantumBytes4 qa(4) [of a b c, folded v_def] by (simp only:)
qed

lemma quantum2:
  fixes a b :: byte
  defines "v \<equiv> of_char a * 65536 + of_char b * 256 + (0 :: int)"
  shows "quantumBytes [v div 262144 mod 64, v div 4096 mod 64, v div 64 mod 64] = [a, b]"
proof -
  have z: "(0::int) < 256" by simp
  note q = quantum_arith [OF of_char_int_bounds [of a] of_char_int_bounds [of b] order_refl z,
      folded v_def]
  have m: "v mod 64 = 0" by (rule q(5) [OF refl])
  have "char_of (v div 65536) = a" "char_of (v div 256) = b"
    by (rule char_of_eqI, rule q(1), rule char_of_eqI, rule q(2))
  then show ?thesis
    unfolding quantumBytes3 q(4) [unfolded m] by (simp only:)
qed

lemma quantum1:
  fixes a :: byte
  defines "v \<equiv> of_char a * 65536 + 0 * 256 + (0 :: int)"
  shows "quantumBytes [v div 262144 mod 64, v div 4096 mod 64] = [a]"
proof -
  have z: "(0::int) < 256" by simp
  note q = quantum_arith [OF of_char_int_bounds [of a] order_refl z order_refl z, folded v_def]
  have m: "v mod 64 = 0" by (rule q(5) [OF refl])
  have m2: "v div 64 mod 64 = 0" by (rule q(6) [OF refl refl])
  have "char_of (v div 65536) = a"
    by (rule char_of_eqI, rule q(1))
  then show ?thesis
    unfolding quantumBytes2 q(4) [unfolded m m2] by (simp only:)
qed

lemma EncodeToString_1:
  "EncodeToString [a] =
     [sextet ((of_char a * 65536 + 0 * 256 + 0) div 262144),
      sextet ((of_char a * 65536 + 0 * 256 + 0) div 4096), CHR ''='', CHR ''='']"
  by (simp add: Let_def)

lemma EncodeToString_2:
  "EncodeToString [a, b] =
     [sextet ((of_char a * 65536 + of_char b * 256 + 0) div 262144),
      sextet ((of_char a * 65536 + of_char b * 256 + 0) div 4096),
      sextet ((of_char a * 65536 + of_char b * 256 + 0) div 64), CHR ''='']"
  by (simp add: Let_def)

lemma EncodeToString_3:
  "EncodeToString (a # b # c # rest) =
     [sextet ((of_char a * 65536 + of_char b * 256 + of_char c) div 262144),
      sextet ((of_char a * 65536 + of_char b * 256 + of_char c) div 4096),
      sextet ((of_char a * 65536 + of_char b * 256 + of_char c) div 64),
      sextet (of_char a * 65536 + of_char b * 256 + of_char c)] @ EncodeToString rest"
  by (simp only: EncodeToString.simps Let_def)

lemma DecodeString_EncodeToString: "DecodeString (EncodeToString data) = Inr data"
  unfolding DecodeString_def
proof (induction data rule: EncodeToString.induct)
  case 1
  show ?case by simp
next
  case (2 a)
  show ?case unfolding EncodeToString_1 decode_pad2 using quantum1 [of a] by simp
next
  case (3 a b)
  show ?case unfolding EncodeToString_2 decode_pad1 using quantum2 [of a b] by simp
next
  case (4 a b c rest)
  show ?case unfolding EncodeToString_3 append_Cons append_Nil decode_full
    using quantum3 [of a b c] 4 by simp
qed

section \<open>Dictionary loading and padding\<close>

lemma length_cjkBlock: "length (cjkBlock n) = n"
  by (simp add: cjkBlock_def)

lemma distinct_cjkBlock: "distinct (cjkBlock n)"
  by (simp add: cjkBlock_def distinct_map inj_on_def)

lemma cjkBlock_qualify: "n \<le> 20992 \<Longrightarrow> \<forall>r \<in> set (cjkBlock n). isChineseChar r"
  by (auto simp: cjkBlock_def isChineseChar_def)

lemma extract_cjkBlock: "n \<le> 20992 \<Longrightarrow> extractChineseCharacters (utf8 (cjkBlock n)) = cjkBlock n"
  by (rule extract_utf8 [OF distinct_cjkBlock cjkBlock_qualify])

lemma nth_cjkBlock: "k < n \<Longrightarrow> cjkBlock n ! k = 0x4E00 + int k"
  by (simp add: cjkBlock_def)

lemma extract_count:
  "length (extractChineseCharacters dict) = card {r \<in> set (rangeRunes dict). isChineseChar r}"
  using distinct_card [OF extract_distinct [of dict]] by (simp add: extract_set)

lemma paddedText_base64: "paddedText data True = EncodeToString data"
  using even_length_EncodeToString [of data]
  by (simp add: paddedText_def intermediateText_def Let_def)

section \<open>The mapping built from a dictionary\<close>

lemma pairAt_row: "j < 64 \<Longrightarrow> pairAt (64 * i + j) = [base64Charset ! i, base64Charset ! j]"
  by (simp add: pairAt_def)

lemma buildInner_fold:
  "idx = 64 * i + j \<Longrightarrow> j \<le> 64 \<Longrightarrow>
   buildInner c chars i j idx =
     (foldl (assignPair chars) c [idx ..< min (64 * i + 64) (length chars)],
      max idx (min (64 * i + 64) (length chars)))"
proof (induction c chars i j idx rule: buildInner.induct)
  case (1 c chars i j idx)
  show ?case
  proof (cases "j < 64 \<and> idx < length chars")
    case True
    let ?n = "min (64 * i + 64) (length chars)"
    have lt: "idx < ?n" using True 1(2) by simp
    have pa: "[base64Charset ! i, base64Charset ! j] = pairAt idx"
      using True 1(2) pairAt_row [of j i] by simp
    have cEq: "c\<lparr>pairToRune := (pairToRune c)([base64Charset ! i, base64Charset ! j] \<mapsto> chars ! idx),
          runeToPair := (runeToPair c)(chars ! idx \<mapsto> [base64Charset ! i, base64Charset ! j])\<rparr>
        = assignPair chars c idx"
      by (simp add: assignPair_def pa)
    have step: "buildInner c chars i j idx =
        buildInner (assignPair chars c idx) chars i (j + 1) (idx + 1)"
      by (subst buildInner.simps) (simp add: True Let_def cEq)
    have ih: "buildInner (assignPair chars c idx) chars i (j + 1) (idx + 1) =
        (foldl (assignPair chars) (assignPair chars c idx) [idx + 1 ..< ?n], max (idx + 1) ?n)"
      using 1(1) [OF True refl refl, unfolded cEq] 1(2) True by simp
    show ?thesis
      unfolding step ih using lt by (simp add: upt_conv_Cons max_def)
  next
    case False
    then have "min (64 * i + 64) (length chars) \<le> idx" using 1(2,3) by auto
    then show ?thesis
      by (subst buildInner.simps) (auto simp add: False max_def)
  qed
qed

lemma buildOuter_fold:
  "idx = 64 * i \<or> length chars \<le> idx \<Longrightarrow> i \<le> 64 \<Longrightarrow>
   buildOuter c chars i idx = foldl (assignPair chars) c [idx ..< min 4096 (length chars)]"
proof (induction c chars i idx rule: buildOuter.induct)
  case (1 c chars i idx)
  show ?case
  proof (cases "i < 64 \<and> idx < length chars")
    case True
    then have idx: "idx = 64 * i" using 1(2) by auto
    let ?n = "min (64 * i + 64) (length chars)"
    have inner: "buildInner c chars i 0 idx = (foldl (assignPair chars) c [idx ..< ?n], ?n)"
      using buildInner_fold [of idx i 0 c chars] idx True by (simp add: max_def)
    have inv: "?n = 64 * (i + 1) \<or> length chars \<le> ?n" by (auto simp: min_def)
    have ih: "buildOuter (foldl (assignPair chars) c [idx ..< ?n]) chars (i + 1) ?n =
        foldl (assignPair chars) (foldl (assignPair chars) c [idx ..< ?n])
          [?n ..< min 4096 (length chars)]"
      using 1(1) [OF True] inv True unfolding inner by simp
    have le: "idx \<le> ?n" "?n \<le> min 4096 (length chars)" using True idx by auto
    have split: "[idx ..< min 4096 (length chars)] = [idx ..< ?n] @ [?n ..< min 4096 (length chars)]"
      using le by (metis le_Suc_ex upt_add_eq_append)
    have step: "buildOuter c chars i idx =
        buildOuter (foldl (assignPair chars) c [idx ..< ?n]) chars (i + 1) ?n"
      by (subst buildOuter.simps) (simp add: True inner)
    show ?thesis unfolding step ih split by simp
  next
    case False
    then have "min 4096 (length chars) \<le> idx" using 1(2,3) by auto
    then show ?thesis by (subst buildOuter.simps) (simp add: False)
  qed
qed

lemma buildMapping_fold:
  "buildMapping c chars = foldl (assignPair chars) c [0 ..< min 4096 (length chars)]"
  unfolding buildMapping_def by (rule buildOuter_fold) simp_all


lemma pairAt_inj:
  assumes "k < 4096" "k' < 4096" "pairAt k = pairAt k'"
  shows "k = k'"
proof -
  have d: "distinct base64Charset" and l: "length base64Charset = 64"
    by (simp_all add: base64Charset_def)
  have b: "k div 64 < 64" "k' div 64 < 64" "k mod 64 < 64" "k' mod 64 < 64"
    using assms(1,2) by simp_all
  from assms(3) have "base64Charset ! (k div 64) = base64Charset ! (k' div 64)"
    and "base64Charset ! (k mod 64) = base64Charset ! (k' mod 64)"
    by (simp_all add: pairAt_def)
  then have "k div 64 = k' div 64" "k mod 64 = k' mod 64"
    using b d l by (simp_all add: nth_eq_iff_index_eq)
  then show ?thesis by (metis div_mult_mod_eq)
qed

lemma pairAt_inj_on: "inj_on pairAt {..<4096}"
  by (rule inj_onI) (simp add: pairAt_inj)

lemma fold_pairToRune:
  "n \<le> 4096 \<Longrightarrow> k < n \<Longrightarrow>
   pairToRune (foldl (assignPair chars) NewCodec [0..<n]) (pairAt k) = Some (chars ! k)"
proof (induction n)
  case 0
  then show ?case by simp
next
  case (Suc n)
  show ?case
  proof (cases "k = n")
    case True
    then show ?thesis by (simp add: assignPair_def)
  next
    case False
    then have k: "k < n" using Suc.prems by simp
    then have "pairAt k \<noteq> pairAt n" using pairAt_inj [of k n] Suc.prems by auto
    then show ?thesis using Suc.IH k Suc.prems by (simp add: assignPair_def)
  qed
qed

lemma dom_assignPair:
  "dom (pairToRune (assignPair chars c k)) = insert (pairAt k) (dom (pairToRune c))"
  "dom (runeToPair (assignPair chars c k)) = insert (chars ! k) (dom (runeToPair c))"
  by (simp_all add: assignPair_def)

lemma fold_dom_pairToRune:
  "dom (pairToRune (foldl (assignPair chars) NewCodec [0..<n])) = pairAt ` {..<n}"
  by (induction n) (simp_all add: dom_assignPair NewCodec_def lessThan_Suc)

lemma fold_runeToPair:
  "distinct (take n chars) \<Longrightarrow> n \<le> length chars \<Longrightarrow> k < n \<Longrightarrow>
   runeToPair (foldl (assignPair chars) NewCodec [0..<n]) (chars ! k) = Some (pairAt k)"
proof (induction n)
  case 0
  then show ?case by simp
next
  case (Suc n)
  have d: "distinct (take n chars)"
    using Suc.prems(1) by (metis distinct_take take_take min.cobounded2 Suc_n_not_le_n nat_le_linear min_def)
  show ?case
  proof (cases "k = n")
    case True
    then show ?thesis by (simp add: assignPair_def)
  next
    case False
    then have k: "k < n" using Suc.prems by simp
    have "chars ! k \<noteq> chars ! n"
      using nth_eq_iff_index_eq [of "take (Suc n) chars" k n] Suc.prems k by simp
    then show ?thesis using Suc.IH [OF d] k Suc.prems by (simp add: assignPair_def)
  qed
qed

lemma fold_dom_runeToPair:
  "dom (runeToPair (foldl (assignPair chars) NewCodec [0..<n])) = (\<lambda>k. chars ! k) ` {..<n}"
  by (induction n) (simp_all add: dom_assignPair NewCodec_def lessThan_Suc)

lemma mapping_facts:
  assumes d: "distinct chars" and n: "n = min 4096 (length chars)"
    and c: "c = buildMapping NewCodec chars"
  shows "\<forall>k<n. pairToRune c (pairAt k) = Some (chars ! k) \<and> runeToPair c (chars ! k) = Some (pairAt k)"
    and "dom (pairToRune c) = pairAt ` {..<n}"
    and "dom (runeToPair c) = (\<lambda>k. chars ! k) ` {..<n}"
    and "pairToRune c p = Some r \<longleftrightarrow> runeToPair c r = Some p"
proof -
  have cf: "c = foldl (assignPair chars) NewCodec [0..<n]"
    unfolding c n by (rule buildMapping_fold)
  have le: "n \<le> 4096" "n \<le> length chars" using n by simp_all
  have dt: "distinct (take n chars)" using d by simp
  show 1: "\<forall>k<n. pairToRune c (pairAt k) = Some (chars ! k) \<and> runeToPair c (chars ! k) = Some (pairAt k)"
    unfolding cf using fold_pairToRune [OF le(1)] fold_runeToPair [OF dt le(2)] by blast
  show 2: "dom (pairToRune c) = pairAt ` {..<n}"
    unfolding cf by (rule fold_dom_pairToRune)
  show 3: "dom (runeToPair c) = (\<lambda>k. chars ! k) ` {..<n}"
    unfolding cf by (rule fold_dom_runeToPair)
  show "pairToRune c p = Some r \<longleftrightarrow> runeToPair c r = Some p"
  proof
    assume a: "pairToRune c p = Some r"
    then have "p \<in> pairAt ` {..<n}" using 2 by auto
    then obtain k where k: "k < n" "p = pairAt k" by auto
    with 1 a show "runeToPair c r = Some p" by auto
  next
    assume a: "runeToPair c r = Some p"
    then have "r \<in> (\<lambda>k. chars ! k) ` {..<n}" using 3 by auto
    then obtain k where k: "k < n" "r = chars ! k" by auto
    with 1 a show "pairToRune c p = Some r" by auto
  qed
qed

lemma mapping_cards:
  assumes d: "distinct chars" and n: "n = min 4096 (length chars)"
    and c: "c = buildMapping NewCodec chars"
  shows "card (dom (pairToRune c)) = n" and "card (dom (runeToPair c)) = n"
    and "ran (pairToRune c) = dom (runeToPair c)"
    and "inj_on (pairToRune c) (dom (pairToRune c))"
    and "inj_on (runeToPair c) (dom (runeToPair c))"
proof -
  note f = mapping_facts [OF d n c]
  have le: "n \<le> 4096" "n \<le> length chars" using n by simp_all
  have "inj_on pairAt {..<n}" using pairAt_inj_on le(1) by (auto intro: inj_on_subset)
  then show "card (dom (pairToRune c)) = n" unfolding f(2) by (simp add: card_image)
  have "inj_on (\<lambda>k. chars ! k) {..<n}" using d le(2) by (intro inj_on_nth) auto
  then show "card (dom (runeToPair c)) = n" unfolding f(3) by (simp add: card_image)
  show "ran (pairToRune c) = dom (runeToPair c)"
    using f(4) by (auto simp: ran_def dom_def)
  show "inj_on (pairToRune c) (dom (pairToRune c))"
  proof (rule inj_onI)
    fix p q assume "p \<in> dom (pairToRune c)" "q \<in> dom (pairToRune c)" "pairToRune c p = pairToRune c q"
    then obtain r where "pairToRune c p = Some r" "pairToRune c q = Some r" by auto
    then have "runeToPair c r = Some p" "runeToPair c r = Some q" using f(4) by blast+
    then show "p = q" by simp
  qed
  show "inj_on (runeToPair c) (dom (runeToPair c))"
  proof (rule inj_onI)
    fix r s assume "r \<in> dom (runeToPair c)" "s \<in> dom (runeToPair c)" "runeToPair c r = runeToPair c s"
    then obtain p where "runeToPair c r = Some p" "runeToPair c s = Some p" by auto
    then have "pairToRune c p = Some r" "pairToRune c p = Some s" using f(4) by blast+
    then show "r = s" by simp
  qed
qed

section \<open>The encoder and decoder loops\<close>

lemma isValidBase64Pair_two: "isValidBase64Pair [a, b] \<longleftrightarrow> inAlphabet a \<and> inAlphabet b"
  by (simp add: isValidBase64Pair_def inAlphabet_def IndexByte_iff)

lemma emitSegment_two:
  "emitSegment c [a, b] =
     (if inAlphabet a \<and> inAlphabet b
      then (case pairToRune c [a, b] of Some r \<Rightarrow> encodeRune r | None \<Rightarrow> [a, b])
      else [a, b])"
  by (simp add: emitSegment_def)

lemma unmappedSegment_two:
  "unmappedSegment c [a, b] \<longleftrightarrow> inAlphabet a \<and> inAlphabet b \<and> pairToRune c [a, b] = None"
  by (simp add: unmappedSegment_def)

lemma encodeLoop_spec:
  "encodeLoop c t i result unmapped =
     (result @ concat (map (emitSegment c) (segments (drop i t))),
      unmapped + length (filter (unmappedSegment c) (segments (drop i t))))"
proof (induction c t i result unmapped rule: encodeLoop.induct)
  case (1 c t i result unmapped)
  show ?case
  proof (cases "int i < int (length t) - 1")
    case True
    then have lt: "i < length t" "Suc i < length t" by auto
    have dr: "drop i t = t ! i # t ! Suc i # drop (i + 2) t"
      using lt by (simp add: Cons_nth_drop_Suc)
    have pr: "take 2 (drop i t) = [t ! i, t ! Suc i]" unfolding dr by simp
    show ?thesis
    proof (cases "isValidBase64Pair [t ! i, t ! Suc i]")
      case valid: True
      show ?thesis
      proof (cases "pairToRune c [t ! i, t ! Suc i]")
        case None
        have "encodeLoop c t i result unmapped =
              encodeLoop c t (i + 2) (result @ [t ! i, t ! Suc i]) (unmapped + 1)"
          by (subst encodeLoop.simps) (simp add: True pr valid None Let_def)
        also have "\<dots> = (result @ [t ! i, t ! Suc i] @ concat (map (emitSegment c) (segments (drop (i + 2) t))),
              unmapped + 1 + length (filter (unmappedSegment c) (segments (drop (i + 2) t))))"
          using "1.IH" True valid None by (simp add: pr)
        finally show ?thesis
          unfolding dr using valid None
          by (auto simp: emitSegment_two unmappedSegment_two isValidBase64Pair_two)
      next
        case (Some r)
        have "encodeLoop c t i result unmapped =
              encodeLoop c t (i + 2) (result @ encodeRune r) unmapped"
          by (subst encodeLoop.simps) (simp add: True pr valid Some Let_def)
        also have "\<dots> = (result @ encodeRune r @ concat (map (emitSegment c) (segments (drop (i + 2) t))),
              unmapped + length (filter (unmappedSegment c) (segments (drop (i + 2) t))))"
          using "1.IH" True valid Some by (simp add: pr)
        finally show ?thesis
          unfolding dr using valid Some
          by (auto simp: emitSegment_two unmappedSegment_two isValidBase64Pair_two)
      qed
    next
      case invalid: False
      have "encodeLoop c t i result unmapped =
            encodeLoop c t (i + 2) (result @ [t ! i, t ! Suc i]) unmapped"
        by (subst encodeLoop.simps) (simp add: True pr invalid Let_def)
      also have "\<dots> = (result @ [t ! i, t ! Suc i] @ concat (map (emitSegment c) (segments (drop (i + 2) t))),
            unmapped + length (filter (unmappedSegment c) (segments (drop (i + 2) t))))"
        using "1.IH" True invalid by (simp add: pr)
      finally show ?thesis
        unfolding dr using invalid
        by (auto simp: emitSegment_two unmappedSegment_two isValidBase64Pair_two)
    qed
  next
    case False
    then have "length (drop i t) < 2" by auto
    then have "segments (drop i t) = []"
      by (cases "drop i t" rule: segments.cases) auto
    then show ?thesis by (subst encodeLoop.simps) (simp add: False)
  qed
qed

lemma concat_segments: "even (length t) \<Longrightarrow> concat (segments t) = t"
  by (induction t rule: segments.induct) auto

lemma even_length_paddedText: "even (length (paddedText data f))"
  by (auto simp: paddedText_def Let_def mod_Suc even_iff_mod_2_eq_zero)

lemma encodeRun_spec:
  "encodeRun c data f =
     (concat (map (emitSegment c) (segments (paddedText data f))),
      length (filter (unmappedSegment c) (segments (paddedText data f))))"
  by (simp add: encodeRun_def encodeLoop_spec)

lemma decodeLoop_spec: "decodeLoop c rs acc = acc @ concat (map (decodePiece c) rs)"
  by (induction rs arbitrary: acc) (simp_all add: decodePiece_def split: option.splits)

lemma reconstruct_spec: "reconstruct c t = concat (map (decodePiece c) (rangeRunes t))"
  by (simp add: reconstruct_def decodeLoop_spec)

lemma mapping_keys:
  assumes "runeToPair (buildMapping NewCodec chars) r = Some p"
  shows "r \<in> set chars"
proof -
  let ?n = "min 4096 (length chars)"
  have "r \<in> dom (runeToPair (foldl (assignPair chars) NewCodec [0..<?n]))"
    using assms by (auto simp: buildMapping_fold)
  then obtain k where "k < ?n" "r = chars ! k" unfolding fold_dom_runeToPair by auto
  then show ?thesis by simp
qed

lemma mapping_pairs:
  assumes "pairToRune (buildMapping NewCodec chars) p = Some r"
  shows "\<exists>k < min 4096 (length chars). p = pairAt k"
proof -
  let ?n = "min 4096 (length chars)"
  have "p \<in> dom (pairToRune (foldl (assignPair chars) NewCodec [0..<?n]))"
    using assms by (auto simp: buildMapping_fold)
  then show ?thesis unfolding fold_dom_pairToRune by auto
qed

lemma sample_AB:
  "pairToRune (buildMapping NewCodec (cjkBlock 256)) ''AB'' = Some 0x4E01"
  "runeToPair (buildMapping NewCodec (cjkBlock 256)) 0x4E01 = Some ''AB''"
proof -
  have n: "256 = min 4096 (length (cjkBlock 256))" by (simp add: length_cjkBlock)
  note f = mapping_facts(1) [OF distinct_cjkBlock n refl, rule_format, of 1]
  have p: "pairAt 1 = ''AB''" by (simp add: pairAt_def base64Charset_def)
  have c: "cjkBlock 256 ! 1 = 0x4E01" by (simp add: nth_cjkBlock)
  show "pairToRune (buildMapping NewCodec (cjkBlock 256)) ''AB'' = Some 0x4E01"
    "runeToPair (buildMapping NewCodec (cjkBlock 256)) 0x4E01 = Some ''AB''"
    using f unfolding p c by simp_all
qed

lemma sample_hi: "pairToRune (buildMapping NewCodec (cjkBlock 256)) ''hi'' = None"
proof (rule ccontr)
  assume "pairToRune (buildMapping NewCodec (cjkBlock 256)) ''hi'' \<noteq> None"
  then obtain r where "pairToRune (buildMapping NewCodec (cjkBlock 256)) ''hi'' = Some r" by auto
  from mapping_pairs [OF this] obtain k where k: "k < 256" "''hi'' = pairAt k"
    by (auto simp: length_cjkBlock)
  have "pairAt 2146 = ''hi''" by (simp add: pairAt_def base64Charset_def)
  with k have "pairAt 2146 = pairAt k" by simp
  then have "2146 = k" using k(1) by (intro pairAt_inj) simp_all
  with k(1) show False by simp
qed

lemma sample_ascii:
  "r < 0x3400 \<Longrightarrow> runeToPair (buildMapping NewCodec (cjkBlock 256)) r = None"
proof (rule ccontr)
  assume r: "r < 0x3400" and "runeToPair (buildMapping NewCodec (cjkBlock 256)) r \<noteq> None"
  then obtain p where "runeToPair (buildMapping NewCodec (cjkBlock 256)) r = Some p" by auto
  from mapping_keys [OF this] have "isChineseChar r" using cjkBlock_qualify [of 256] by simp
  with r show False by (simp add: isChineseChar_def)
qed

section \<open>Round trip\<close>

lemma rangeRunes_ascii:
  "(of_char ch :: int) < 128 \<Longrightarrow> rangeRunes (ch # rest) = of_char ch # rangeRunes rest"
  by (subst rangeRunes.simps) (simp add: decodeRune_def firstByte_def)

lemma encodeRune_ascii: "(of_char ch :: int) < 128 \<Longrightarrow> encodeRune (of_char ch) = [ch]"
  using of_char_int_bounds(1) [of ch] by (simp add: encodeRune_def)

lemma sextet_in: "sextet v \<in> set encodeStd"
  unfolding sextet_def by (rule nth_mem) (simp add: length_encodeStd)

lemma encodeStd_ascii: "ch \<in> set encodeStd \<Longrightarrow> (of_char ch :: int) < 128"
  by (auto simp: encodeStd_def)

lemma EncodeToString_chars:
  "ch \<in> set (EncodeToString data) \<Longrightarrow> ch \<in> set encodeStd \<or> ch = CHR ''=''"
  by (induction data rule: EncodeToString.induct) (auto simp: Let_def sextet_in)

lemma EncodeToString_ascii: "ch \<in> set (EncodeToString data) \<Longrightarrow> (of_char ch :: int) < 128"
  using EncodeToString_chars [of ch data] encodeStd_ascii [of ch] by auto

text \<open>What the round trip needs of a codec: it was built from distinct qualifying characters.\<close>

lemma built_inverse:
  assumes "distinct chars" "c = buildMapping NewCodec chars" "pairToRune c p = Some r"
  shows "runeToPair c r = Some p"
  using mapping_facts(4) [OF assms(1) refl assms(2)] assms(3) by simp

lemma built_keys_cjk:
  assumes "\<forall>r \<in> set chars. isChineseChar r" "c = buildMapping NewCodec chars"
    "runeToPair c r = Some p"
  shows "isChineseChar r"
  using mapping_keys [of chars r p] assms by simp

lemma built_ascii_passes:
  assumes "\<forall>r \<in> set chars. isChineseChar r" "c = buildMapping NewCodec chars"
    "(of_char ch :: int) < 128"
  shows "decodePiece c (of_char ch) = [ch]"
proof -
  have "runeToPair c (of_char ch) = None"
  proof (rule ccontr)
    assume "runeToPair c (of_char ch) \<noteq> None"
    then obtain p where "runeToPair c (of_char ch) = Some p" by auto
    from built_keys_cjk [OF assms(1,2) this] assms(3) show False
      by (simp add: isChineseChar_def)
  qed
  then show ?thesis by (simp add: decodePiece_def encodeRune_ascii [OF assms(3)])
qed

lemma pieces_of_segment:
  assumes d: "distinct chars" and q: "\<forall>r \<in> set chars. isChineseChar r"
    and c: "c = buildMapping NewCodec chars"
    and a: "(of_char a :: int) < 128" "(of_char b :: int) < 128"
  shows "concat (map (decodePiece c) (rangeRunes (emitSegment c [a, b] @ rest)))
         = [a, b] @ concat (map (decodePiece c) (rangeRunes rest))"
proof (cases "inAlphabet a \<and> inAlphabet b \<and> pairToRune c [a, b] \<noteq> None")
  case True
  then obtain r where r: "pairToRune c [a, b] = Some r" by auto
  have inv: "runeToPair c r = Some [a, b]" by (rule built_inverse [OF d c r])
  have "validRune r" using built_keys_cjk [OF q c inv] by (rule isChineseChar_valid)
  then have "rangeRunes (encodeRune r @ rest) = r # rangeRunes rest"
    by (rule rangeRunes_encodeRune)
  moreover have "emitSegment c [a, b] = encodeRune r" using True r by (simp add: emitSegment_two)
  ultimately show ?thesis using inv by (simp add: decodePiece_def)
next
  case False
  then have "emitSegment c [a, b] = [a, b]" by (auto simp: emitSegment_two)
  then show ?thesis
    using built_ascii_passes [OF q c a(1)] built_ascii_passes [OF q c a(2)]
    by (simp add: rangeRunes_ascii a)
qed

lemma reconstruct_encoded:
  assumes d: "distinct chars" and q: "\<forall>r \<in> set chars. isChineseChar r"
    and c: "c = buildMapping NewCodec chars"
  shows "\<forall>ch \<in> set t. (of_char ch :: int) < 128 \<Longrightarrow>
         reconstruct c (concat (map (emitSegment c) (segments t))) = concat (segments t)"
proof (induction t rule: segments.induct)
  case (1 a b rest)
  have ab: "(of_char a :: int) < 128" "(of_char b :: int) < 128" using 1(2) by simp_all
  have ih: "concat (map (decodePiece c) (rangeRunes (concat (map (emitSegment c) (segments rest)))))
      = concat (segments rest)"
    using 1 by (simp add: reconstruct_spec)
  show ?case
    unfolding reconstruct_spec using pieces_of_segment [OF d q c ab] ih by simp
qed (simp_all add: reconstruct_spec rangeRunes_Nil)

lemma round_trip_text:
  assumes d: "distinct chars" and q: "\<forall>r \<in> set chars. isChineseChar r"
    and c: "c = buildMapping NewCodec chars"
    and t: "\<forall>ch \<in> set (paddedText data f). (of_char ch :: int) < 128"
  shows "reconstruct c (encodeData c data f) = paddedText data f"
  using reconstruct_encoded [OF d q c t] concat_segments [OF even_length_paddedText, of data f]
  by (simp add: encodeData_def encodeRun_spec)

lemma loaded_codec:
  assumes "LoadDictionary NewCodec (Some dict) = Inr c"
  shows "c = buildMapping NewCodec (extractChineseCharacters dict)"
    and "256 \<le> length (extractChineseCharacters dict)"
  using assms by (auto simp: LoadDictionary_def Let_def minDictChars_def split: if_splits)

lemma extract_qualify: "\<forall>r \<in> set (extractChineseCharacters dict). isChineseChar r"
  by (simp add: extract_set)

section \<open>What the base64 decoder accepts\<close>

lemma IndexByte_less: "IndexByte s c < int (length s)"
  by (induction s) auto

lemma decodeMap_digit: "decodeMap c \<noteq> 0xFF \<longleftrightarrow> inStd c"
proof -
  have "IndexByte encodeStd c < 64" using IndexByte_less [of encodeStd c] by (simp add: length_encodeStd)
  then show ?thesis
    using IndexByte_iff [of encodeStd c] by (auto simp: decodeMap_def inStd_def)
qed

lemma inStd_A: "inStd CHR ''A''"
  by (simp add: inStd_def encodeStd_def)

lemma inStd_not_special: "inStd c \<Longrightarrow> \<not> isNewline c \<and> c \<noteq> CHR ''=''"
  by (auto simp: inStd_def encodeStd_def isNewline_def)

lemma groups_chars: "base64Groups t \<Longrightarrow> ch \<in> set t \<Longrightarrow> inStd ch \<or> ch = CHR ''=''"
  by (induction t rule: base64Groups.induct) auto

lemma groups_digit0: "inStd c \<Longrightarrow> base64Groups (c # t) = base64Groups (CHR ''A'' # t)"
  by (cases t rule: base64Groups.cases) (auto simp: inStd_A)

lemma groups_digit1: "inStd c \<Longrightarrow> base64Groups (x # c # t) = base64Groups (x # CHR ''A'' # t)"
  by (cases t rule: base64Groups.cases) (auto simp: inStd_A)

lemma groups_digit2:
  "inStd c \<Longrightarrow> base64Groups (x # y # c # t) = base64Groups (x # y # CHR ''A'' # t)"
  by (cases t rule: base64Groups.cases) (auto simp: inStd_A dest: inStd_not_special)

lemma groups_digit3:
  "inStd c \<Longrightarrow> base64Groups (CHR ''A'' # CHR ''A'' # CHR ''A'' # c # t) = base64Groups t"
  by (cases t) (auto simp: inStd_A)

lemma groups_pad0: "\<not> base64Groups (CHR ''='' # t)"
  using inStd_not_special [of "CHR ''=''"] by (cases t rule: base64Groups.cases) auto

lemma groups_pad1: "\<not> base64Groups (x # CHR ''='' # t)"
  using inStd_not_special [of "CHR ''=''"] by (cases t rule: base64Groups.cases) auto

lemma groups_pad2: "base64Groups (CHR ''A'' # CHR ''A'' # CHR ''='' # t) \<longleftrightarrow> t = ''=''"
  using inStd_not_special [of "CHR ''=''"] by (cases t rule: base64Groups.cases) (auto simp: inStd_A)

lemma groups_pad3:
  "base64Groups (CHR ''A'' # CHR ''A'' # CHR ''A'' # CHR ''='' # t) \<longleftrightarrow> t = []"
  using inStd_not_special [of "CHR ''=''"] by (cases t) (auto simp: inStd_A)

lemma dropWhile_newline_Nil:
  "dropWhile isNewline s = [] \<longleftrightarrow> filter (\<lambda>c. \<not> isNewline c) s = []"
  by (induction s) auto

lemma dropWhile_newline_Cons:
  "dropWhile isNewline s = c2 # s2 \<Longrightarrow>
   filter (\<lambda>c. \<not> isNewline c) s = c2 # filter (\<lambda>c. \<not> isNewline c) s2"
  by (induction s) (auto split: if_splits)

lemma pending_simps:
  "pending 0 = []" "pending (Suc 0) = ''A''" "pending 2 = ''AA''" "pending 3 = ''AAA''"
  "pending (Suc 2) = ''AAA''"
  by (simp_all add: pending_def numeral_2_eq_2 numeral_3_eq_3)

lemma small_cases:
  assumes "j \<le> 3"
  obtains "j = 0" | "j = Suc 0" | "j = 2" | "j = (3::nat)"
  using assms by linarith

lemma pending_end: "j \<le> 3 \<Longrightarrow> base64Groups (pending j) \<longleftrightarrow> j = 0"
  by (erule small_cases) (simp_all add: pending_simps)

lemma pending_digit:
  assumes "inStd c" "j < 3"
  shows "base64Groups (pending j @ c # t) = base64Groups (pending (Suc j) @ t)"
proof -
  from assms(2) have "j \<le> 3" by simp
  then show ?thesis
  proof (cases rule: small_cases)
    case 1
    then show ?thesis using groups_digit0 [OF assms(1), of t] by (simp add: pending_simps)
  next
    case 2
    then show ?thesis using groups_digit1 [OF assms(1), of "CHR ''A''" t]
      by (simp add: pending_simps numeral_2_eq_2 [symmetric])
  next
    case 3
    then show ?thesis using groups_digit2 [OF assms(1), of "CHR ''A''" "CHR ''A''" t]
      by (simp add: pending_simps)
  next
    case 4
    then show ?thesis using assms(2) by simp
  qed
qed

lemma pending_full:
  "inStd c \<Longrightarrow> base64Groups (pending 3 @ c # t) = base64Groups t"
  using groups_digit3 [of c t] by (simp add: pending_simps)

lemma pending_bad:
  assumes "\<not> inStd c" "c \<noteq> CHR ''=''"
  shows "\<not> base64Groups (pending j @ c # t)"
  using groups_chars [of "pending j @ c # t" c] assms by auto

lemma pending_pad:
  assumes "j \<le> 3"
  shows "base64Groups (pending j @ CHR ''='' # t) \<longleftrightarrow> (j = 2 \<and> t = ''='') \<or> (j = 3 \<and> t = [])"
  using assms
proof (cases rule: small_cases)
  case 1
  then show ?thesis using groups_pad0 [of t] by (simp add: pending_simps)
next
  case 2
  then show ?thesis using groups_pad1 [of "CHR ''A''" t] by (simp add: pending_simps)
next
  case 3
  then show ?thesis using groups_pad2 [of t] by (simp add: pending_simps)
next
  case 4
  then show ?thesis using groups_pad3 [of t] by (simp add: pending_simps)
qed

lemma decodeFrom_ok_iff:
  "length dbuf \<le> 3 \<Longrightarrow>
   (\<exists>bs. decodeFrom dbuf s = Inr bs) \<longleftrightarrow>
   base64Groups (pending (length dbuf) @ filter (\<lambda>c. \<not> isNewline c) s)"
proof (induction s arbitrary: dbuf)
  case Nil
  then show ?case using pending_end [of "length dbuf"] by auto
next
  case (Cons c s)
  let ?j = "length dbuf"
  let ?f = "filter (\<lambda>c. \<not> isNewline c)"
  consider (digit) "inStd c" | (newline) "\<not> inStd c" "isNewline c"
    | (pad) "\<not> inStd c" "\<not> isNewline c" "c = CHR ''=''"
    | (bad) "\<not> inStd c" "\<not> isNewline c" "c \<noteq> CHR ''=''"
    by blast
  then show ?case
  proof cases
    case digit
    then have d: "decodeMap c \<noteq> 0xFF" and nn: "\<not> isNewline c"
      using decodeMap_digit inStd_not_special by auto
    show ?thesis
    proof (cases "?j = 3")
      case True
      have "(\<exists>bs. decodeFrom dbuf (c # s) = Inr bs) \<longleftrightarrow> (\<exists>bs. decodeFrom [] s = Inr bs)"
        using d True by (auto split: sum.splits)
      also have "\<dots> \<longleftrightarrow> base64Groups (?f s)"
        using Cons.IH [of "[]"] by (simp add: pending_simps)
      finally show ?thesis
        using pending_full [OF digit, of "?f s"] True nn by simp
    next
      case False
      then have lt: "?j < 3" using Cons.prems by simp
      have "(\<exists>bs. decodeFrom dbuf (c # s) = Inr bs)
            \<longleftrightarrow> (\<exists>bs. decodeFrom (dbuf @ [decodeMap c]) s = Inr bs)"
        using d False by simp
      also have "\<dots> \<longleftrightarrow> base64Groups (pending (Suc ?j) @ ?f s)"
        using Cons.IH [of "dbuf @ [decodeMap c]"] lt by simp
      finally show ?thesis
        using pending_digit [OF digit lt, of "?f s"] nn by simp
    qed
  next
    case newline
    then have d: "decodeMap c = 0xFF" using decodeMap_digit by auto
    show ?thesis using d newline Cons.IH [OF Cons.prems] by simp
  next
    case bad
    then have d: "decodeMap c = 0xFF" using decodeMap_digit by auto
    show ?thesis using d bad pending_bad [OF bad(1,3), of ?j "?f s"] by simp
  next
    case pad
    then have d: "decodeMap c = 0xFF" using decodeMap_digit by auto
    have rhs: "base64Groups (pending ?j @ ?f (c # s))
               \<longleftrightarrow> (?j = 2 \<and> ?f s = ''='') \<or> (?j = 3 \<and> ?f s = [])"
      using pending_pad [OF Cons.prems, of "?f s"] pad by simp
    consider "?j < 2" | "?j = 2" | "?j = 3" using Cons.prems by linarith
    then show ?thesis
    proof cases
      case 1
      show ?thesis unfolding rhs using 1 by (simp add: pad(3) decodeMap_pad pad_not_newline)
    next
      case 2
      show ?thesis
      proof (cases "dropWhile isNewline s")
        case Nil
        then have fs: "?f s = []" by (simp add: dropWhile_newline_Nil)
        show ?thesis unfolding rhs fs by (simp add: pad(3) decodeMap_pad pad_not_newline 2 Nil)
      next
        case (Cons c2 s2)
        have fs: "?f s = c2 # ?f s2" by (rule dropWhile_newline_Cons [OF Cons])
        show ?thesis unfolding rhs fs
          by (auto simp add: pad(3) decodeMap_pad pad_not_newline 2 Cons filter_empty_conv)
      qed
    next
      case 3
      show ?thesis unfolding rhs
        by (auto simp add: pad(3) decodeMap_pad pad_not_newline 3 filter_empty_conv)
    qed
  qed
qed

lemma DecodeString_ok_iff: "(\<exists>bs. DecodeString s = Inr bs) \<longleftrightarrow> validStdBase64 s"
  using decodeFrom_ok_iff [of "[]" s] by (simp add: DecodeString_def validStdBase64_def pending_simps)

lemma decodeFrom_error: "decodeFrom dbuf s = Inl e \<Longrightarrow> e = CorruptInput"
  by (induction s arbitrary: dbuf) (auto split: if_splits sum.splits list.splits)

section \<open>Decoding across a rune boundary\<close>

lemma firstByte_Multi:
  "firstByte b = Multi sz lo hi \<Longrightarrow> (sz = 2 \<or> sz = 3 \<or> sz = 4) \<and> 0x80 \<le> lo \<and> hi \<le> 0xBF"
  by (auto simp: firstByte_def Let_def split: if_splits)

lemma list_shape:
  fixes u :: string
  obtains "u = []" | a where "u = [a]" | a b where "u = [a, b]"
    | a b c w where "u = a # b # c # w"
  by (cases u rule: base64Groups.cases) auto

lemma decodeRune_width: "snd (decodeRune u) \<le> length u"
proof (cases u)
  case Nil
  then show ?thesis by (simp add: decodeRune_def)
next
  case (Cons s0 u')
  show ?thesis
  proof (cases "firstByte s0")
    case AS
    then show ?thesis using Cons by (simp add: decodeRune_def)
  next
    case XX
    then show ?thesis using Cons by (simp add: decodeRune_def)
  next
    case (Multi sz lo hi)
    from firstByte_Multi [OF Multi] consider "sz = 2" | "sz = 3" | "sz = 4" by blast
    then show ?thesis
    proof cases
      case 1
      then show ?thesis using Cons Multi
        by (simp add: decodeRune_def Let_def Suc_le_eq)
    next
      case 2
      then show ?thesis using Cons Multi
        by (simp add: decodeRune_def Let_def Suc_le_eq)
    next
      case 3
      then show ?thesis using Cons Multi
        by (simp add: decodeRune_def Let_def Suc_le_eq)
    qed
  qed
qed

lemma decodeRune_append:
  assumes "u \<noteq> []" "boundary v"
  shows "decodeRune (u @ v) = decodeRune u"
proof -
  from assms(1) obtain s0 u' where u: "u = s0 # u'" by (cases u) auto
  show ?thesis
  proof (cases "firstByte s0")
    case AS
    then show ?thesis using u by (simp add: decodeRune_def)
  next
    case XX
    then show ?thesis using u by (simp add: decodeRune_def)
  next
    case (Multi sz lo hi)
    from firstByte_Multi [OF Multi] have lh: "0x80 \<le> lo" "hi \<le> 0xBF"
      and sz: "sz = 2 \<or> sz = 3 \<or> sz = 4" by simp_all
    show ?thesis
    proof (cases v)
      case Nil
      then show ?thesis by simp
    next
      case (Cons x v')
      with assms(2) have x: "(of_char x :: int) < 0x80 \<or> 0xBF < (of_char x :: int)"
        by (simp add: boundary_def)
      have xlo: "(of_char x :: int) < lo \<or> hi < of_char x" using x lh by linarith
      show ?thesis
      proof (cases u' rule: list_shape)
        case 1
        then show ?thesis using u Cons Multi sz xlo
          by (auto simp: decodeRune_def Let_def)
      next
        case (2 a)
        then show ?thesis using u Cons Multi sz x
          by (auto simp: decodeRune_def Let_def)
      next
        case (3 a b)
        then show ?thesis using u Cons Multi sz x
          by (auto simp: decodeRune_def Let_def)
      next
        case (4 a b c w)
        then show ?thesis using u Cons Multi sz
          by (auto simp: decodeRune_def Let_def)
      qed
    qed
  qed
qed

lemma rangeRunes_append:
  "boundary v \<Longrightarrow> rangeRunes (u @ v) = rangeRunes u @ rangeRunes v"
proof (induction u rule: rangeRunes.induct)
  case (1 u)
  show ?case
  proof (cases "u = []")
    case True
    then show ?thesis by (simp add: rangeRunes_Nil)
  next
    case False
    have d: "decodeRune (u @ v) = decodeRune u" by (rule decodeRune_append [OF False 1(2)])
    have dr: "drop (snd (decodeRune u)) (u @ v) = drop (snd (decodeRune u)) u @ v"
      using decodeRune_width [of u] by simp
    have "rangeRunes (u @ v) = fst (decodeRune u) # rangeRunes (drop (snd (decodeRune u)) u @ v)"
      using False by (subst rangeRunes.simps) (simp add: d decodeRune_width)
    also have "\<dots> = fst (decodeRune u) # rangeRunes (drop (snd (decodeRune u)) u) @ rangeRunes v"
      using 1(1) [OF False 1(2)] by simp
    also have "\<dots> = rangeRunes u @ rangeRunes v"
      using False by (subst (2) rangeRunes.simps) simp
    finally show ?thesis .
  qed
qed

section \<open>Raw mode\<close>

lemma boundary_Nil: "boundary []"
  by (simp add: boundary_def)

lemma boundary_ascii: "(of_char a :: int) < 128 \<Longrightarrow> boundary (a # X)"
  by (simp add: boundary_def)

lemma boundary_lead3: "0 \<le> a \<Longrightarrow> a < 16 \<Longrightarrow> boundary (char_of (0xE0 + (a::int)) # X)"
  by (simp add: boundary_def)

lemma boundary_lead4: "0 \<le> a \<Longrightarrow> a \<le> 4 \<Longrightarrow> boundary (char_of (0xF0 + (a::int)) # X)"
  by (simp add: boundary_def)

lemma boundary_cjk:
  assumes "isChineseChar r"
  shows "boundary (encodeRune r @ X)"
proof (cases "r \<le> 0xFFFF")
  case True
  have b: "0 \<le> r" "r \<le> 65535" "\<not> (0 \<le> r \<and> r \<le> 0x7F)" "\<not> (0 \<le> r \<and> r \<le> 0x7FF)"
    "\<not> (r < 0 \<or> 0x10FFFF < r \<or> (0xD800 \<le> r \<and> r \<le> 0xDFFF))"
    using assms True by (auto simp: isChineseChar_def)
  have e: "encodeRune r = [char_of (0xE0 + r div 4096), char_of (0x80 + r div 64 mod 64),
                char_of (0x80 + r mod 64)]"
    using b True by (simp only: encodeRune_def encode3_def if_False if_True)
  from r3(4) [OF b(1,2)] have "0 \<le> r div 4096" "r div 4096 < 16" by blast+
  then show ?thesis unfolding e append_Cons by (rule boundary_lead3)
next
  case False
  have b: "0 \<le> r" "r \<le> 1114111" "\<not> (0 \<le> r \<and> r \<le> 0x7F)" "\<not> (0 \<le> r \<and> r \<le> 0x7FF)"
    "\<not> (r < 0 \<or> 0x10FFFF < r \<or> (0xD800 \<le> r \<and> r \<le> 0xDFFF))"
    using assms False by (auto simp: isChineseChar_def)
  have e: "encodeRune r = [char_of (0xF0 + r div 262144), char_of (0x80 + r div 4096 mod 64),
            char_of (0x80 + r div 64 mod 64), char_of (0x80 + r mod 64)]"
    using b False by (simp only: encodeRune_def if_False)
  from r4(4) [OF b(1,2)] have "0 \<le> r div 262144" "r div 262144 \<le> 4" by blast+
  then show ?thesis unfolding e append_Cons by (rule boundary_lead4)
qed

lemma reconstruct_append:
  "boundary v \<Longrightarrow> reconstruct c (u @ v) = reconstruct c u @ reconstruct c v"
  by (simp add: reconstruct_spec rangeRunes_append)

lemma reconstruct_Nil: "reconstruct c [] = []"
  by (simp add: reconstruct_spec rangeRunes_Nil)

lemma inAlphabet_ascii: "inAlphabet a \<Longrightarrow> (of_char a :: int) < 128"
  by (auto simp: inAlphabet_def base64Charset_def)

lemma reconstruct_emitted:
  assumes d: "distinct chars" and q: "\<forall>r \<in> set chars. isChineseChar r"
    and c: "c = buildMapping NewCodec chars"
  shows "even (length t) \<Longrightarrow>
         reconstruct c (u @ concat (map (emitSegment c) (segments t))) = reconstruct c (u @ t)"
proof (induction t arbitrary: u rule: segments.induct)
  case (1 a b rest)
  let ?E = "concat (map (emitSegment c) (segments rest))"
  have ev: "even (length rest)" using 1(2) by simp
  show ?case
  proof (cases "inAlphabet a \<and> inAlphabet b \<and> pairToRune c [a, b] \<noteq> None")
    case True
    then obtain r where r: "pairToRune c [a, b] = Some r" by auto
    have ab: "(of_char a :: int) < 128" "(of_char b :: int) < 128"
      using True inAlphabet_ascii by blast+
    have inv: "runeToPair c r = Some [a, b]" by (rule built_inverse [OF d c r])
    have cjk: "isChineseChar r" by (rule built_keys_cjk [OF q c inv])
    have em: "emitSegment c [a, b] = encodeRune r" using True r by (simp add: emitSegment_two)
    have "reconstruct c (u @ encodeRune r @ ?E) = reconstruct c u @ reconstruct c (encodeRune r @ ?E)"
      by (rule reconstruct_append [OF boundary_cjk [OF cjk]])
    also have "reconstruct c (encodeRune r @ ?E) = [a, b] @ reconstruct c ?E"
      using pieces_of_segment [OF d q c ab, of ?E] unfolding em reconstruct_spec .
    also have "reconstruct c ?E = reconstruct c rest"
      using 1(1) [OF ev, of "[]"] by simp
    finally have lhs: "reconstruct c (u @ encodeRune r @ ?E)
        = reconstruct c u @ [a, b] @ reconstruct c rest" .
    have "reconstruct c (u @ a # b # rest) = reconstruct c u @ reconstruct c (a # b # rest)"
      by (rule reconstruct_append [OF boundary_ascii [OF ab(1)]])
    also have "reconstruct c (a # b # rest) = [a, b] @ reconstruct c rest"
      using built_ascii_passes [OF q c ab(1)] built_ascii_passes [OF q c ab(2)]
      by (simp add: reconstruct_spec rangeRunes_ascii ab)
    finally show ?thesis using lhs by (simp add: em)
  next
    case False
    then have em: "emitSegment c [a, b] = [a, b]" by (auto simp: emitSegment_two)
    show ?thesis using 1(1) [OF ev, of "u @ [a, b]"] by (simp add: em)
  qed
qed simp_all

lemma reconstruct_encodeData:
  assumes "distinct chars" "\<forall>r \<in> set chars. isChineseChar r" "c = buildMapping NewCodec chars"
  shows "reconstruct c (encodeData c data f) = reconstruct c (paddedText data f)"
  using reconstruct_emitted [OF assms even_length_paddedText, of "[]" data f]
  by (simp add: encodeData_def encodeRun_spec)

lemma reconstruct_ascii_char:
  assumes "\<forall>r \<in> set chars. isChineseChar r" "c = buildMapping NewCodec chars"
    "(of_char ch :: int) < 128"
  shows "reconstruct c [ch] = [ch]"
  using built_ascii_passes [OF assms]
  by (simp add: reconstruct_spec rangeRunes_ascii assms(3) rangeRunes_Nil)

lemma pad_stays:
  assumes "\<forall>r \<in> set chars. isChineseChar r" "c = buildMapping NewCodec chars"
  shows "reconstruct c (d @ ''='') = reconstruct c d @ ''=''"
proof -
  have a: "(of_char CHR ''='' :: int) < 128" by simp
  have b: "boundary ''=''" by (simp add: boundary_def)
  show ?thesis
    using reconstruct_append [OF b, where u = d and c = c]
      reconstruct_ascii_char [OF assms a] by simp
qed

lemma pad_never_restores:
  assumes "\<forall>r \<in> set chars. isChineseChar r" "c = buildMapping NewCodec chars"
  shows "reconstruct c d @ ''='' \<noteq> d"
proof (induction "length d" arbitrary: d rule: less_induct)
  case less
  show ?case
  proof
    assume eq: "reconstruct c d @ ''='' = d"
    let ?u = "reconstruct c d"
    have "length ?u < length d" using arg_cong [OF eq, of length] by simp
    moreover have "reconstruct c ?u @ ''='' = ?u"
    proof -
      have "reconstruct c d = reconstruct c (?u @ ''='')" using eq by simp
      also have "\<dots> = reconstruct c ?u @ ''=''" by (rule pad_stays [OF assms])
      finally show ?thesis by simp
    qed
    ultimately show False using less by blast
  qed
qed

lemma raw_result:
  assumes "distinct chars" "\<forall>r \<in> set chars. isChineseChar r" "c = buildMapping NewCodec chars"
  shows "decodeData c (encodeData c data False) False =
     Inr (if even (length data) then reconstruct c data else reconstruct c data @ ''='')"
proof -
  have "paddedText data False = (if even (length data) then data else data @ ''='')"
    by (simp add: paddedText_def intermediateText_def Let_def even_iff_mod_2_eq_zero)
  then show ?thesis
    using reconstruct_encodeData [OF assms, of data False] pad_stays [OF assms(2,3), of data]
    by (simp add: decodeData_def)
qed

lemma raw_round_trip_iff:
  assumes "distinct chars" "\<forall>r \<in> set chars. isChineseChar r" "c = buildMapping NewCodec chars"
  shows "decodeData c (encodeData c data False) False = Inr data
         \<longleftrightarrow> even (length data) \<and> reconstruct c data = data"
  using raw_result [OF assms, of data] pad_never_restores [OF assms(2,3), of data]
  by auto

lemma reconstruct_utf8_fixed:
  assumes "\<forall>r \<in> set rs. validRune r \<and> runeToPair c r = None"
  shows "reconstruct c (utf8 rs) = utf8 rs"
proof -
  have 1: "rangeRunes (utf8 rs) = rs" using assms by (intro rangeRunes_utf8) auto
  have 2: "map (decodePiece c) rs = map encodeRune rs"
    using assms by (intro map_cong) (auto simp: decodePiece_def)
  have "reconstruct c (utf8 rs) = concat (map (decodePiece c) rs)"
    unfolding reconstruct_spec 1 ..
  also have "\<dots> = utf8 rs" unfolding 2 utf8_def ..
  finally show ?thesis .
qed

lemma loaded_sample:
  "LoadDictionary NewCodec (Some (utf8 (cjkBlock 256))) = Inr (buildMapping NewCodec (cjkBlock 256))"
  by (simp add: LoadDictionary_def Let_def minDictChars_def extract_cjkBlock length_cjkBlock)

lemma sample_reconstruct_ascii:
  "\<forall>ch \<in> set t. (of_char ch :: int) < 128 \<Longrightarrow>
   reconstruct (buildMapping NewCodec (cjkBlock 256)) t = t"
proof (induction t)
  case Nil
  show ?case by (rule reconstruct_Nil)
next
  case (Cons a t)
  have a: "(of_char a :: int) < 128" using Cons.prems by simp
  have "reconstruct (buildMapping NewCodec (cjkBlock 256)) ([a] @ t)
        = reconstruct (buildMapping NewCodec (cjkBlock 256)) [a]
          @ reconstruct (buildMapping NewCodec (cjkBlock 256)) t"
  proof (cases t)
    case Nil
    then show ?thesis by (simp add: reconstruct_Nil)
  next
    case (Cons b t')
    have "boundary t" using Cons.prems Cons \<open>\<forall>ch \<in> set (a # t). (of_char ch :: int) < 128\<close>
      by (simp add: boundary_def)
    then show ?thesis by (rule reconstruct_append)
  qed
  then show ?case
    using Cons reconstruct_ascii_char [OF cjkBlock_qualify [of 256] refl a] by simp
qed

section \<open>Claims\<close>

text \<open>
  Claim C1, amended. With the mapping of a successfully loaded dictionary on both sides:
  when the base64-intermediate flag is set, decoding the encoding gives back the input
  for every byte sequence; when the flag is not set, it gives back the input exactly when
  the input has even length and decoding the input itself leaves it unchanged. Decoding
  leaves unchanged every UTF-8 text none of whose code points is a key of the mapping,
  and only qualifying characters are keys; every ASCII text is such a text. As stated, for
  both settings of the flag and every byte sequence, the claim fails in raw mode: the
  one-byte input \<^verbatim>\<open>a\<close> comes back as \<^verbatim>\<open>a=\<close>, since nothing removes the pad; the two
  bytes \<^verbatim>\<open>FF FF\<close> come back as two encodings of U+FFFD, since the decoder reads the text
  as UTF-8; and the six bytes \<^verbatim>\<open>E4 B8 81 E4 B8 81\<close>, a mapped dictionary character
  twice, come back as \<^verbatim>\<open>ABAB\<close>.
\<close>

theorem C1_round_trip:
  assumes "LoadDictionary NewCodec (Some dict) = Inr c"
  shows "decodeData c (encodeData c data True) True = Inr data
    \<and> (decodeData c (encodeData c data False) False = Inr data
         \<longleftrightarrow> even (length data) \<and> reconstruct c data = data)
    \<and> (\<not> isChineseChar r \<longrightarrow> runeToPair c r = None)
    \<and> ((\<forall>r \<in> set rs. validRune r \<and> runeToPair c r = None) \<longrightarrow>
          reconstruct c (utf8 rs) = utf8 rs)
    \<and> ((\<forall>r \<in> set rs. validRune r \<and> runeToPair c r = None) \<and> even (length (utf8 rs)) \<longrightarrow>
          decodeData c (encodeData c (utf8 rs) False) False = Inr (utf8 rs))
    \<and> (even (length data) \<and> (\<forall>b \<in> set data. (of_char b :: int) < 128) \<longrightarrow>
         decodeData c (encodeData c data False) False = Inr data)"
proof -
  note c = loaded_codec(1) [OF assms]
  note d = extract_distinct [of dict]
  note q = extract_qualify [of dict]
  note rt = round_trip_text [OF d q c]
  have "reconstruct c (encodeData c data True) = EncodeToString data"
    using rt [of data True] EncodeToString_ascii [of _ data] by (simp add: paddedText_base64)
  then have 1: "decodeData c (encodeData c data True) True = Inr data"
    by (simp add: decodeData_def DecodeString_EncodeToString)
  note 2 = raw_round_trip_iff [OF d q c]
  have 3: "runeToPair c r = None" if "\<not> isChineseChar r"
  proof (rule ccontr)
    assume "runeToPair c r \<noteq> None"
    then obtain p where "runeToPair c r = Some p" by auto
    from built_keys_cjk [OF q c this] that show False by simp
  qed
  have 4: "reconstruct c (utf8 rs) = utf8 rs"
    if "\<forall>r \<in> set rs. validRune r \<and> runeToPair c r = None"
    using that by (rule reconstruct_utf8_fixed)
  have 5: "decodeData c (encodeData c (utf8 rs) False) False = Inr (utf8 rs)"
    if "\<forall>r \<in> set rs. validRune r \<and> runeToPair c r = None" "even (length (utf8 rs))"
    using 2 [of "utf8 rs"] 4 [OF that(1)] that(2) by simp
  have 6: "decodeData c (encodeData c data False) False = Inr data"
    if "even (length data)" "\<forall>b \<in> set data. (of_char b :: int) < 128"
  proof -
    have p: "paddedText data False = data"
      using that(1) by (simp add: paddedText_def intermediateText_def Let_def even_iff_mod_2_eq_zero)
    have "reconstruct c (encodeData c data False) = data"
      using rt [of data False] that(2) unfolding p by simp
    then show ?thesis by (simp add: decodeData_def)
  qed
  show ?thesis using 1 2 [of data] 3 4 5 6 by blast
qed

theorem C1_round_trip_witness:
  "decodeData (buildMapping NewCodec (cjkBlock 256))
     (encodeData (buildMapping NewCodec (cjkBlock 256)) [CHR 0x00, CHR 0xFF, CHR 0x80] True) True
     = Inr [CHR 0x00, CHR 0xFF, CHR 0x80]
   \<and> decodeData (buildMapping NewCodec (cjkBlock 256))
     (encodeData (buildMapping NewCodec (cjkBlock 256)) [CHR 0xC3, CHR 0xA9] False) False
     = Inr [CHR 0xC3, CHR 0xA9]
   \<and> decodeData (buildMapping NewCodec (cjkBlock 256))
     (encodeData (buildMapping NewCodec (cjkBlock 256)) ''ABhi'' False) False = Inr ''ABhi''"
proof -
  let ?c = "buildMapping NewCodec (cjkBlock 256)"
  note l = loaded_sample
  have u: "utf8 [0xE9] = [CHR 0xC3, CHR 0xA9]"
    by (simp add: utf8_def encodeRune_def char_of_eq_iff)
  have n: "\<not> isChineseChar 0xE9" by (simp add: isChineseChar_def)
  from C1_round_trip [OF l, of _ "0xE9"] n have k: "runeToPair ?c 0xE9 = None" by blast
  have v: "\<forall>r \<in> set [0xE9]. validRune r \<and> runeToPair ?c r = None"
    using k by (simp add: validRune_def)
  have ev: "even (length (utf8 [0xE9]))" unfolding u by simp
  from C1_round_trip [OF l, of _ _ "[0xE9]"] v ev
  have 2: "decodeData ?c (encodeData ?c (utf8 [0xE9]) False) False = Inr (utf8 [0xE9])" by blast
  have h: "even (length ''ABhi'') \<and> (\<forall>b \<in> set ''ABhi''. (of_char b :: int) < 128)" by simp
  from C1_round_trip [OF l, of "''ABhi''"] h
  have 3: "decodeData ?c (encodeData ?c ''ABhi'' False) False = Inr ''ABhi''" by blast
  from C1_round_trip [OF l, of "[CHR 0x00, CHR 0xFF, CHR 0x80]"]
  have 1: "decodeData ?c (encodeData ?c [CHR 0x00, CHR 0xFF, CHR 0x80] True) True
           = Inr [CHR 0x00, CHR 0xFF, CHR 0x80]" by blast
  show ?thesis using 1 2 3 unfolding u by blast
qed

theorem C1_raw_mode_counterexample:
  "LoadDictionary NewCodec (Some (utf8 (cjkBlock 256))) = Inr (buildMapping NewCodec (cjkBlock 256))
   \<and> decodeData (buildMapping NewCodec (cjkBlock 256))
        (encodeData (buildMapping NewCodec (cjkBlock 256)) ''a'' False) False = Inr ''a=''
   \<and> decodeData (buildMapping NewCodec (cjkBlock 256))
        (encodeData (buildMapping NewCodec (cjkBlock 256)) ''a'' False) False \<noteq> Inr ''a''
   \<and> decodeData (buildMapping NewCodec (cjkBlock 256))
        (encodeData (buildMapping NewCodec (cjkBlock 256)) [CHR 0xFF, CHR 0xFF] False) False
       = Inr [CHR 0xEF, CHR 0xBF, CHR 0xBD, CHR 0xEF, CHR 0xBF, CHR 0xBD]
   \<and> decodeData (buildMapping NewCodec (cjkBlock 256))
        (encodeData (buildMapping NewCodec (cjkBlock 256))
           [CHR 0xE4, CHR 0xB8, CHR 0x81, CHR 0xE4, CHR 0xB8, CHR 0x81] False) False
       = Inr ''ABAB''"
proof -
  let ?c = "buildMapping NewCodec (cjkBlock 256)"
  note rr = raw_result [OF distinct_cjkBlock cjkBlock_qualify [of 256] refl, simplified]
  have d1: "reconstruct ?c ''a'' = ''a''" by (rule sample_reconstruct_ascii) simp
  have r2: "rangeRunes [CHR 0xFF, CHR 0xFF] = [0xFFFD, 0xFFFD]"
    by (subst rangeRunes.simps, simp add: decodeRune_def firstByte_def RuneError_def)+
  have n: "runeToPair ?c 0xFFFD = None"
  proof (rule ccontr)
    assume "runeToPair ?c 0xFFFD \<noteq> None"
    then obtain p where "runeToPair ?c 0xFFFD = Some p" by auto
    from mapping_keys [OF this] have "isChineseChar 0xFFFD" using cjkBlock_qualify [of 256] by simp
    then show False by (simp add: isChineseChar_def)
  qed
  have d2: "reconstruct ?c [CHR 0xFF, CHR 0xFF]
            = [CHR 0xEF, CHR 0xBF, CHR 0xBD, CHR 0xEF, CHR 0xBF, CHR 0xBD]"
    unfolding reconstruct_spec r2
    by (simp add: decodePiece_def n encodeRune_def encode3_def RuneError_def char_of_eq_iff)
  have u3: "utf8 [0x4E01, 0x4E01] = [CHR 0xE4, CHR 0xB8, CHR 0x81, CHR 0xE4, CHR 0xB8, CHR 0x81]"
    by (simp add: utf8_def encodeRune_def encode3_def char_of_eq_iff)
  have r3: "rangeRunes (utf8 [0x4E01, 0x4E01]) = [0x4E01, 0x4E01]"
    by (rule rangeRunes_utf8) (simp add: validRune_def)
  have d3: "reconstruct ?c [CHR 0xE4, CHR 0xB8, CHR 0x81, CHR 0xE4, CHR 0xB8, CHR 0x81] = ''ABAB''"
    unfolding u3 [symmetric] reconstruct_spec r3
    by (simp add: decodePiece_def sample_AB(2))
  have 1: "decodeData ?c (encodeData ?c ''a'' False) False = Inr ''a=''"
    using rr [of "''a''"] by (simp add: d1)
  have 2: "decodeData ?c (encodeData ?c [CHR 0xFF, CHR 0xFF] False) False
       = Inr [CHR 0xEF, CHR 0xBF, CHR 0xBD, CHR 0xEF, CHR 0xBF, CHR 0xBD]"
    using rr [of "[CHR 0xFF, CHR 0xFF]"] by (simp add: d2)
  have 3: "decodeData ?c (encodeData ?c
           [CHR 0xE4, CHR 0xB8, CHR 0x81, CHR 0xE4, CHR 0xB8, CHR 0x81] False) False = Inr ''ABAB''"
    using rr [of "[CHR 0xE4, CHR 0xB8, CHR 0x81, CHR 0xE4, CHR 0xB8, CHR 0x81]"] by (simp add: d3)
  show ?thesis using loaded_sample 1 2 3 by simp
qed

text \<open>
  Claim C2. For every dictionary text, with \<open>chars\<close> its extracted characters and
  \<open>n = min(4096, length chars)\<close>: the mapping built on a fresh codec assigns the \<open>k\<close>-th
  character to the \<open>k\<close>-th row-major pair \<open>(alphabet[k div 64], alphabet[k mod 64])\<close> for
  exactly the \<open>k < n\<close>; the two directions hold the same \<open>n\<close> entries and are inverse
  to each other, so each pair has at most one character and each character at most one
  pair; and with at least 4096 characters every one of the 4096 pairs has a character
  that maps back to it, the 4096 characters being distinct.
\<close>

theorem C2_buildMapping:
  assumes "chars = extractChineseCharacters dict"
    and "c = buildMapping NewCodec chars"
    and "n = min maxPairs (length chars)"
  shows "(\<forall>k<n. pairAt k = [base64Charset ! (k div 64), base64Charset ! (k mod 64)]
            \<and> pairToRune c (pairAt k) = Some (chars ! k)
            \<and> runeToPair c (chars ! k) = Some (pairAt k))
    \<and> dom (pairToRune c) = pairAt ` {..<n}
    \<and> dom (runeToPair c) = (\<lambda>k. chars ! k) ` {..<n}
    \<and> card (dom (pairToRune c)) = n \<and> card (dom (runeToPair c)) = n
    \<and> (\<forall>p r. pairToRune c p = Some r \<longleftrightarrow> runeToPair c r = Some p)
    \<and> inj_on (pairToRune c) (dom (pairToRune c))
    \<and> inj_on (runeToPair c) (dom (runeToPair c))
    \<and> (4096 \<le> length chars \<longrightarrow>
         (\<forall>i<64. \<forall>j<64. \<exists>r.
             pairToRune c [base64Charset ! i, base64Charset ! j] = Some r
             \<and> runeToPair c r = Some [base64Charset ! i, base64Charset ! j])
         \<and> card (ran (pairToRune c)) = 4096)"
proof -
  have d: "distinct chars" unfolding assms(1) by (rule extract_distinct)
  have n: "n = min 4096 (length chars)" using assms(3) by (simp add: maxPairs_def)
  note f = mapping_facts [OF d n assms(2)]
  note g = mapping_cards [OF d n assms(2)]
  have full: "(\<forall>i<64. \<forall>j<64. \<exists>r.
             pairToRune c [base64Charset ! i, base64Charset ! j] = Some r
             \<and> runeToPair c r = Some [base64Charset ! i, base64Charset ! j])
         \<and> card (ran (pairToRune c)) = 4096" if "4096 \<le> length chars"
  proof -
    have n4: "n = 4096" using n that by simp
    have "\<exists>r. pairToRune c [base64Charset ! i, base64Charset ! j] = Some r
             \<and> runeToPair c r = Some [base64Charset ! i, base64Charset ! j]"
      if "i < 64" "j < 64" for i j
    proof -
      have "64 * i + j < n" using that n4 by simp
      then show ?thesis using f(1) pairAt_row [OF that(2), of i] by metis
    qed
    moreover have "card (ran (pairToRune c)) = 4096" using g(2,3) n4 by simp
    ultimately show ?thesis by blast
  qed
  show ?thesis
    using f(1) f(2) f(3) f(4) g(1) g(2) g(4) g(5) full
    by (simp add: pairAt_def)
qed

theorem C2_buildMapping_witness:
  "pairToRune (buildMapping NewCodec (cjkBlock 4096)) ''AA'' = Some 0x4E00
   \<and> runeToPair (buildMapping NewCodec (cjkBlock 4096)) 0x4E00 = Some ''AA''
   \<and> pairToRune (buildMapping NewCodec (cjkBlock 4096)) ''//'' = Some 0x5DFF
   \<and> card (dom (pairToRune (buildMapping NewCodec (cjkBlock 4096)))) = 4096"
proof -
  have e: "cjkBlock 4096 = extractChineseCharacters (utf8 (cjkBlock 4096))"
    by (simp add: extract_cjkBlock)
  have m: "4096 = min maxPairs (length (cjkBlock 4096))"
    by (simp add: maxPairs_def length_cjkBlock)
  note t = C2_buildMapping [OF e refl m]
  have l: "4096 \<le> length (cjkBlock 4096)" by (simp add: length_cjkBlock)
  from t have a: "\<forall>k<4096. pairToRune (buildMapping NewCodec (cjkBlock 4096)) (pairAt k) = Some (cjkBlock 4096 ! k)
            \<and> runeToPair (buildMapping NewCodec (cjkBlock 4096)) (cjkBlock 4096 ! k) = Some (pairAt k)"
    and b: "card (dom (pairToRune (buildMapping NewCodec (cjkBlock 4096)))) = 4096"
    by blast+
  have p0: "pairAt 0 = ''AA''" and p1: "pairAt 4095 = ''//''"
    by (simp_all add: pairAt_def base64Charset_def)
  have c0: "cjkBlock 4096 ! 0 = 0x4E00" and c1: "cjkBlock 4096 ! 4095 = 0x5DFF"
    by (simp_all add: nth_cjkBlock)
  from a have "pairToRune (buildMapping NewCodec (cjkBlock 4096)) (pairAt 0) = Some (cjkBlock 4096 ! 0)"
    "runeToPair (buildMapping NewCodec (cjkBlock 4096)) (cjkBlock 4096 ! 0) = Some (pairAt 0)"
    "pairToRune (buildMapping NewCodec (cjkBlock 4096)) (pairAt 4095) = Some (cjkBlock 4096 ! 4095)"
    by simp_all
  then show ?thesis unfolding p0 p1 c0 c1 using b by simp
qed

text \<open>
  Claim C3. Encoding emits, for the consecutive two-character segments of the padded
  intermediate text, in order: the mapped character when both characters are in the
  alphabet and the pair is in the mapping; the segment itself, counted as unmapped, when
  both characters are in the alphabet and the pair is not in the mapping; the segment
  itself, not counted, when it is not made of two alphabet characters. The result of the
  loop is the concatenation of these pieces and the number of unmapped segments.
\<close>

theorem C3_encode_segments:
  "encodeRun c data f =
     (concat (map (emitSegment c) (segments (paddedText data f))),
      length (filter (unmappedSegment c) (segments (paddedText data f))))
   \<and> encodeData c data f = concat (map (emitSegment c) (segments (paddedText data f)))
   \<and> concat (segments (paddedText data f)) = paddedText data f
   \<and> (inAlphabet a \<and> inAlphabet b \<and> pairToRune c [a, b] = Some r \<longrightarrow>
        emitSegment c [a, b] = encodeRune r \<and> \<not> unmappedSegment c [a, b])
   \<and> (inAlphabet a \<and> inAlphabet b \<and> pairToRune c [a, b] = None \<longrightarrow>
        emitSegment c [a, b] = [a, b] \<and> unmappedSegment c [a, b])
   \<and> (\<not> (inAlphabet a \<and> inAlphabet b) \<longrightarrow>
        emitSegment c [a, b] = [a, b] \<and> \<not> unmappedSegment c [a, b])"
  using concat_segments [OF even_length_paddedText, of data f]
  by (auto simp: encodeRun_spec encodeData_def emitSegment_two unmappedSegment_two)

theorem C3_encode_segments_witness:
  "emitSegment (buildMapping NewCodec (cjkBlock 256)) ''AB'' = encodeRune 0x4E01
   \<and> \<not> unmappedSegment (buildMapping NewCodec (cjkBlock 256)) ''AB''
   \<and> emitSegment (buildMapping NewCodec (cjkBlock 256)) ''hi'' = ''hi''
   \<and> unmappedSegment (buildMapping NewCodec (cjkBlock 256)) ''hi''
   \<and> emitSegment (buildMapping NewCodec (cjkBlock 256)) ''a='' = ''a=''
   \<and> \<not> unmappedSegment (buildMapping NewCodec (cjkBlock 256)) ''a=''
   \<and> encodeRun (buildMapping NewCodec (cjkBlock 256)) ''ABhia'' False
       = (encodeRune 0x4E01 @ ''hia='', 1)"
proof -
  let ?c = "buildMapping NewCodec (cjkBlock 256)"
  have al: "inAlphabet CHR ''A''" "inAlphabet CHR ''B''" "inAlphabet CHR ''h''"
    "inAlphabet CHR ''i''" "inAlphabet CHR ''a''" "\<not> inAlphabet CHR ''=''"
    by (simp_all add: inAlphabet_def base64Charset_def)
  have 1: "emitSegment ?c ''AB'' = encodeRune 0x4E01 \<and> \<not> unmappedSegment ?c ''AB''"
    using C3_encode_segments [of ?c "[]" False "CHR ''A''" "CHR ''B''" "0x4E01"] al sample_AB(1)
    by blast
  have 2: "emitSegment ?c ''hi'' = ''hi'' \<and> unmappedSegment ?c ''hi''"
    using C3_encode_segments [of ?c "[]" False "CHR ''h''" "CHR ''i''" 0] al sample_hi
    by blast
  have 3: "emitSegment ?c ''a='' = ''a='' \<and> \<not> unmappedSegment ?c ''a=''"
    using C3_encode_segments [of ?c "[]" False "CHR ''a''" "CHR ''=''" 0] al
    by blast
  have p: "segments (paddedText ''ABhia'' False) = [''AB'', ''hi'', ''a='']"
    by (simp add: paddedText_def intermediateText_def)
  have 4: "encodeRun ?c ''ABhia'' False = (encodeRune 0x4E01 @ ''hia='', 1)"
    using C3_encode_segments [of ?c "''ABhia''" False "CHR ''A''" "CHR ''B''" 0] 1 2 3
    unfolding p by simp
  show ?thesis using 1 2 3 4 by blast
qed

text \<open>
  Claim C4. Decoding scans the text one code point at a time and concatenates, in order,
  one piece per code point: the associated pair when the code point is a key of the
  reverse mapping, and the code point itself otherwise. On a text that is the UTF-8 form
  of code points \<open>rs\<close>, the pieces are those of \<open>rs\<close>, and the piece of a code point that
  is no key is its own UTF-8 form, unchanged.
\<close>

theorem C4_decode_pieces:
  "reconstruct c t = concat (map (decodePiece c) (rangeRunes t))
   \<and> ((\<forall>r \<in> set rs. validRune r) \<longrightarrow>
        reconstruct c (utf8 rs) = concat (map (decodePiece c) rs))
   \<and> (runeToPair c r = Some pair \<longrightarrow> decodePiece c r = pair)
   \<and> (runeToPair c r = None \<longrightarrow> decodePiece c r = encodeRune r)
   \<and> (runeToPair c r = None \<and> validRune r \<longrightarrow> decodePiece c r = utf8 [r])"
proof -
  have 1: "(\<forall>r \<in> set rs. validRune r) \<longrightarrow>
        reconstruct c (utf8 rs) = concat (map (decodePiece c) rs)"
    by (simp add: reconstruct_spec rangeRunes_utf8)
  have 2: "runeToPair c r = None \<longrightarrow> decodePiece c r = utf8 [r]"
    by (simp add: decodePiece_def utf8_def)
  have 3: "runeToPair c r = Some pair \<longrightarrow> decodePiece c r = pair"
    and 4: "runeToPair c r = None \<longrightarrow> decodePiece c r = encodeRune r"
    by (simp_all add: decodePiece_def)
  show ?thesis using 1 2 3 4 reconstruct_spec [of c t] by blast
qed

theorem C4_decode_pieces_witness:
  "reconstruct (buildMapping NewCodec (cjkBlock 256)) (utf8 [0x4E01, 0x68, 0x69, 0x3D])
     = ''ABhi=''"
proof -
  let ?c = "buildMapping NewCodec (cjkBlock 256)"
  have v: "\<forall>r \<in> set [0x4E01, 0x68, 0x69, 0x3D]. validRune r" by (simp add: validRune_def)
  have a: "decodePiece ?c 0x4E01 = ''AB''"
    using C4_decode_pieces [of ?c "[]" "[]" "0x4E01" "''AB''"] sample_AB(2) by blast
  have b: "decodePiece ?c 0x68 = encodeRune 0x68" "decodePiece ?c 0x69 = encodeRune 0x69"
    "decodePiece ?c 0x3D = encodeRune 0x3D"
    using C4_decode_pieces [of ?c "[]" "[]" "0x68" "[]"] C4_decode_pieces [of ?c "[]" "[]" "0x69" "[]"]
      C4_decode_pieces [of ?c "[]" "[]" "0x3D" "[]"] sample_ascii [of "0x68"]
      sample_ascii [of "0x69"] sample_ascii [of "0x3D"]
    by simp_all
  have "reconstruct ?c (utf8 [0x4E01, 0x68, 0x69, 0x3D])
        = concat (map (decodePiece ?c) [0x4E01, 0x68, 0x69, 0x3D])"
    using C4_decode_pieces [of ?c "[]" "[0x4E01, 0x68, 0x69, 0x3D]" 0 "[]"] v by blast
  then show ?thesis by (simp add: a b encodeRune_def char_of_eq_iff)
qed

text \<open>
  Claim C5. Decoding fails if and only if the base64-intermediate flag is set and the
  reconstructed intermediate text is not valid standard base64, and the failure is then
  the decoder's corrupt-input error; when the flag is not set, decoding never fails and
  returns the bytes of the reconstructed text; when the flag is set, it returns what the
  standard decoder returns on the reconstructed text.
\<close>

theorem C5_decode_error:
  "((\<exists>e. decodeData c t f = Inl e) \<longleftrightarrow> f \<and> \<not> validStdBase64 (reconstruct c t))
   \<and> (decodeData c t f = Inl e \<longrightarrow> e = CorruptInput)
   \<and> decodeData c t False = Inr (reconstruct c t)
   \<and> decodeData c t True = DecodeString (reconstruct c t)
   \<and> (validStdBase64 (reconstruct c t) \<longrightarrow> (\<exists>bs. decodeData c t True = Inr bs))"
proof -
  have ok: "(\<exists>bs. DecodeString (reconstruct c t) = Inr bs) \<longleftrightarrow> validStdBase64 (reconstruct c t)"
    by (rule DecodeString_ok_iff)
  have fail: "(\<exists>e. DecodeString (reconstruct c t) = Inl e) \<longleftrightarrow> \<not> validStdBase64 (reconstruct c t)"
    unfolding ok [symmetric] by (cases "DecodeString (reconstruct c t)") auto
  have 1: "(\<exists>e. decodeData c t f = Inl e) \<longleftrightarrow> f \<and> \<not> validStdBase64 (reconstruct c t)"
    using fail by (cases f) (simp_all add: decodeData_def)
  have 2: "decodeData c t f = Inl e \<longrightarrow> e = CorruptInput"
    using decodeFrom_error [of "[]" "reconstruct c t" e]
    by (cases f) (simp_all add: decodeData_def DecodeString_def)
  have 3: "validStdBase64 (reconstruct c t) \<longrightarrow> (\<exists>bs. decodeData c t True = Inr bs)"
    using ok by (simp add: decodeData_def)
  show ?thesis using 1 2 3 by (simp add: decodeData_def)
qed

theorem C5_decode_error_witness:
  "decodeData (buildMapping NewCodec (cjkBlock 256)) ''A='' True = Inl CorruptInput
   \<and> decodeData (buildMapping NewCodec (cjkBlock 256)) ''A='' False = Inr ''A=''
   \<and> \<not> validStdBase64 ''A=''
   \<and> validStdBase64 ''QQ==''
   \<and> (\<exists>bs. decodeData (buildMapping NewCodec (cjkBlock 256)) ''QQ=='' True = Inr bs)"
proof -
  let ?c = "buildMapping NewCodec (cjkBlock 256)"
  have r1: "reconstruct ?c ''A='' = ''A=''"
    by (simp add: reconstruct_spec rangeRunes_ascii rangeRunes_Nil decodePiece_def sample_ascii
        encodeRune_def char_of_eq_iff)
  have r2: "reconstruct ?c ''QQ=='' = ''QQ==''"
    by (simp add: reconstruct_spec rangeRunes_ascii rangeRunes_Nil decodePiece_def sample_ascii
        encodeRune_def char_of_eq_iff)
  have v1: "\<not> validStdBase64 ''A=''"
    by (simp add: validStdBase64_def isNewline_def)
  have v2: "validStdBase64 ''QQ==''"
    by (simp add: validStdBase64_def isNewline_def inStd_def encodeStd_def)
  note a = C5_decode_error [of ?c "''A=''" True, unfolded r1]
  note b = C5_decode_error [of ?c "''A=''" False, unfolded r1]
  note d = C5_decode_error [of ?c "''QQ==''" True, unfolded r2]
  from a v1 obtain e where e: "decodeData ?c ''A='' True = Inl e" by blast
  with a have 1: "decodeData ?c ''A='' True = Inl CorruptInput" by blast
  from b have 2: "decodeData ?c ''A='' False = Inr ''A=''" by blast
  from d v2 have 3: "\<exists>bs. decodeData ?c ''QQ=='' True = Inr bs" by blast
  show ?thesis using 1 2 3 v1 v2 by blast
qed

text \<open>
  Claim C6. Loading a dictionary that was read successfully fails with
  \<open>InsufficientDictionary\<close>, carrying the number of distinct qualifying characters found
  and the required 256, exactly when that number is below 256; otherwise it succeeds
  with the mapping built from the extracted characters. With exactly 255 qualifying
  characters it fails, with exactly 256 it succeeds.
\<close>

theorem C6_threshold:
  "LoadDictionary c (Some dict) =
     (if card {r \<in> set (rangeRunes dict). isChineseChar r} < 256
      then Inl (InsufficientDictionary (card {r \<in> set (rangeRunes dict). isChineseChar r}) 256)
      else Inr (buildMapping c (extractChineseCharacters dict)))
   \<and> length (extractChineseCharacters dict) = card {r \<in> set (rangeRunes dict). isChineseChar r}
   \<and> (card {r \<in> set (rangeRunes dict). isChineseChar r} = 255 \<longrightarrow>
        LoadDictionary c (Some dict) = Inl (InsufficientDictionary 255 256))
   \<and> (card {r \<in> set (rangeRunes dict). isChineseChar r} = 256 \<longrightarrow>
        LoadDictionary c (Some dict) = Inr (buildMapping c (extractChineseCharacters dict)))"
  by (simp add: LoadDictionary_def Let_def minDictChars_def extract_count)

theorem C6_threshold_witness:
  "LoadDictionary NewCodec (Some (utf8 (cjkBlock 255))) = Inl (InsufficientDictionary 255 256)
   \<and> LoadDictionary NewCodec (Some (utf8 (cjkBlock 256)))
       = Inr (buildMapping NewCodec (cjkBlock 256))"
proof -
  have a: "card {r \<in> set (rangeRunes (utf8 (cjkBlock 255))). isChineseChar r} = 255"
    using extract_count [of "utf8 (cjkBlock 255)"] by (simp add: extract_cjkBlock length_cjkBlock)
  have b: "card {r \<in> set (rangeRunes (utf8 (cjkBlock 256))). isChineseChar r} = 256"
    using extract_count [of "utf8 (cjkBlock 256)"] by (simp add: extract_cjkBlock length_cjkBlock)
  show ?thesis
    using C6_threshold [of NewCodec "utf8 (cjkBlock 255)"]
      C6_threshold [of NewCodec "utf8 (cjkBlock 256)"] a b
    by (simp add: extract_cjkBlock)
qed

text \<open>
  Claim C7. Character extraction scans the dictionary text once, in code-point order,
  and collects each qualifying character exactly once, at its first occurrence,
  preserving the order of first appearance: the result is the first occurrences of the
  qualifying runes among the runes of the text, it has no repetition, and it holds
  exactly the qualifying runes of the text. A rune qualifies if and only if
  it lies in U+4E00..U+9FFF, U+3400..U+4DBF or U+20000..U+2A6DF.
\<close>

theorem C7_extraction:
  "extractChineseCharacters dict = firstOccurrences (filter isChineseChar (rangeRunes dict))
   \<and> distinct (extractChineseCharacters dict)
   \<and> set (extractChineseCharacters dict) = {r \<in> set (rangeRunes dict). isChineseChar r}
   \<and> (isChineseChar x \<longleftrightarrow>
        x \<in> {0x4E00..0x9FFF} \<union> {0x3400..0x4DBF} \<union> {0x20000..0x2A6DF})"
proof -
  have "isChineseChar x \<longleftrightarrow> x \<in> {0x4E00..0x9FFF} \<union> {0x3400..0x4DBF} \<union> {0x20000..0x2A6DF}"
    by (auto simp: isChineseChar_def)
  then show ?thesis
    using extract_eq [of dict] extract_distinct [of dict] extract_set [of dict] by blast
qed

theorem C7_extraction_witness:
  "extractChineseCharacters (utf8 [0x4E00, 0x61, 0x4E01, 0x4E00, 0x20000]) = [0x4E00, 0x4E01, 0x20000]
   \<and> isChineseChar 0x3400 \<and> \<not> isChineseChar 0x61"
proof -
  have "rangeRunes (utf8 [0x4E00, 0x61, 0x4E01, 0x4E00, 0x20000]) = [0x4E00, 0x61, 0x4E01, 0x4E00, 0x20000]"
    by (rule rangeRunes_utf8) (simp add: validRune_def)
  then show ?thesis
    using C7_extraction [where dict = "utf8 [0x4E00, 0x61, 0x4E01, 0x4E00, 0x20000]" and x = "0x3400"]
    by (simp add: isChineseChar_def)
qed

text \<open>
  Claim C8, amended. If the intermediate text (the base64 text or the raw bytes, as the
  flag says) has odd length, the padded text is the intermediate text followed by exactly
  one \<^verbatim>\<open>=\<close>; if it has even length, the padded text is the intermediate text. In
  base64 mode the intermediate text always has even length, so nothing is appended, and
  standard decoding of the padded text, which is the base64 text itself, returns the
  input. In raw mode an input of odd length gets the \<^verbatim>\<open>=\<close> and decoding does not
  discard it: the result is the decoding of the input followed by \<^verbatim>\<open>=\<close>, never the
  input. As stated, the last clause fails: there is no appended \<^verbatim>\<open>=\<close> in base64 mode
  (the one-byte input \<^verbatim>\<open>a\<close> has the base64 text \<^verbatim>\<open>YQ==\<close>, of length four), the
  standard decoder refuses an odd-length base64 text with one \<^verbatim>\<open>=\<close> appended
  (\<^verbatim>\<open>QUJDR=\<close>), and in raw mode the appended \<^verbatim>\<open>=\<close> stays (\<^verbatim>\<open>abc\<close> comes back as
  \<^verbatim>\<open>abc=\<close>).
\<close>

theorem C8_padding:
  assumes "LoadDictionary NewCodec (Some dict) = Inr c"
  shows "(odd (length (intermediateText data f)) \<longrightarrow>
      paddedText data f = intermediateText data f @ ''='')
   \<and> (even (length (intermediateText data f)) \<longrightarrow>
      paddedText data f = intermediateText data f)
   \<and> even (length (intermediateText data True))
   \<and> paddedText data True = intermediateText data True
   \<and> DecodeString (paddedText data True) = Inr data
   \<and> (odd (length data) \<longrightarrow>
        paddedText data False = data @ ''=''
        \<and> decodeData c (encodeData c data False) False = Inr (reconstruct c data @ ''='')
        \<and> decodeData c (encodeData c data False) False \<noteq> Inr data)"
proof -
  note c = loaded_codec(1) [OF assms]
  note d = extract_distinct [of dict]
  note q = extract_qualify [of dict]
  have 12: "(odd (length (intermediateText data f)) \<longrightarrow>
      paddedText data f = intermediateText data f @ ''='')
   \<and> (even (length (intermediateText data f)) \<longrightarrow>
      paddedText data f = intermediateText data f)"
    by (simp add: paddedText_def Let_def even_iff_mod_2_eq_zero)
  have 3: "even (length (intermediateText data True))"
    by (simp add: intermediateText_def even_length_EncodeToString)
  have 4: "paddedText data True = intermediateText data True"
    by (simp add: paddedText_base64 intermediateText_def)
  have 5: "DecodeString (paddedText data True) = Inr data"
    by (simp add: paddedText_base64 DecodeString_EncodeToString)
  have 6: "paddedText data False = data @ ''=''
        \<and> decodeData c (encodeData c data False) False = Inr (reconstruct c data @ ''='')
        \<and> decodeData c (encodeData c data False) False \<noteq> Inr data" if "odd (length data)"
    using that raw_result [OF d q c, of data] pad_never_restores [OF q c, of data]
    by (simp add: paddedText_def intermediateText_def Let_def even_iff_mod_2_eq_zero)
  show ?thesis using 12 3 4 5 6 by blast
qed

theorem C8_padding_witness:
  "odd (length (intermediateText ''abc'' False))
   \<and> paddedText ''abc'' False = ''abc=''
   \<and> even (length (intermediateText ''ab'' False))
   \<and> paddedText ''ab'' False = ''ab''
   \<and> paddedText ''a'' True = intermediateText ''a'' True
   \<and> decodeData (buildMapping NewCodec (cjkBlock 256))
        (encodeData (buildMapping NewCodec (cjkBlock 256)) ''abc'' False) False = Inr ''abc=''"
proof -
  let ?c = "buildMapping NewCodec (cjkBlock 256)"
  note l = loaded_sample
  have o: "odd (length (intermediateText ''abc'' False))"
    and e: "even (length (intermediateText ''ab'' False))"
    and o': "odd (length ''abc'')"
    by (simp_all add: intermediateText_def)
  from C8_padding [OF l, of "''abc''" False] o
  have 1: "paddedText ''abc'' False = intermediateText ''abc'' False @ ''=''" by blast
  from C8_padding [OF l, of "''ab''" False] e
  have 2: "paddedText ''ab'' False = intermediateText ''ab'' False" by blast
  from C8_padding [OF l, of "''a''" True]
  have 3: "paddedText ''a'' True = intermediateText ''a'' True" by blast
  from C8_padding [OF l, of "''abc''" False] o'
  have 4: "decodeData ?c (encodeData ?c ''abc'' False) False = Inr (reconstruct ?c ''abc'' @ ''='')"
    by blast
  have r: "reconstruct ?c ''abc'' = ''abc''" by (rule sample_reconstruct_ascii) simp
  show ?thesis using o e 3 4 unfolding r by (simp add: 1 2) (simp add: intermediateText_def)
qed

theorem C8_appended_pad_counterexample:
  "intermediateText ''a'' True = ''YQ==''
   \<and> even (length (intermediateText ''a'' True))
   \<and> paddedText ''a'' True = ''YQ==''
   \<and> DecodeString (''QUJDR'' @ ''='') = Inl CorruptInput
   \<and> paddedText ''abc'' False = ''abc=''
   \<and> decodeData (buildMapping NewCodec (cjkBlock 256))
        (encodeData (buildMapping NewCodec (cjkBlock 256)) ''abc'' False) False = Inr ''abc=''"
proof -
  let ?c = "buildMapping NewCodec (cjkBlock 256)"
  note rr = raw_result [OF distinct_cjkBlock cjkBlock_qualify [of 256] refl, simplified]
  have i: "intermediateText ''a'' True = ''YQ==''"
    by (simp add: intermediateText_def Let_def sextet_def encodeStd_def)
  have p: "paddedText ''a'' True = ''YQ==''"
    unfolding paddedText_base64 using i by (simp only: intermediateText_def if_True)
  have nv: "\<not> validStdBase64 (''QUJDR'' @ ''='')"
    by (simp add: validStdBase64_def isNewline_def)
  then have "\<not> (\<exists>bs. DecodeString (''QUJDR'' @ ''='') = Inr bs)"
    unfolding DecodeString_ok_iff .
  then obtain e where e: "DecodeString (''QUJDR'' @ ''='') = Inl e"
    by (cases "DecodeString (''QUJDR'' @ ''='')") auto
  then have "e = CorruptInput" unfolding DecodeString_def by (rule decodeFrom_error)
  with e have dq: "DecodeString (''QUJDR'' @ ''='') = Inl CorruptInput" by simp
  have r: "reconstruct ?c ''abc'' = ''abc''" by (rule sample_reconstruct_ascii) simp
  have raw: "decodeData ?c (encodeData ?c ''abc'' False) False = Inr ''abc=''"
    using rr [of "''abc''"] by (simp add: r)
  have pp: "paddedText ''abc'' False = ''abc=''"
    by (simp add: paddedText_def intermediateText_def)
  show ?thesis using i p dq raw pp by simp
qed

text \<open>
  Claim C9. With a dictionary of exactly 4096 qualifying characters: the base64 text of
  the single byte 0x00 is \<^verbatim>\<open>AA==\<close>, no pad is appended, and its segments are \<^verbatim>\<open>AA\<close>
  and \<^verbatim>\<open>==\<close>; \<^verbatim>\<open>AA\<close> is the pair of row 0, column 0 and maps to the first
  dictionary character, \<^verbatim>\<open>==\<close> passes through; the encoded output is that character
  followed by \<^verbatim>\<open>==\<close>; decoding reconstructs \<^verbatim>\<open>AA==\<close> and returns the single byte
  0x00.
\<close>

theorem C9_scenario:
  assumes "length (extractChineseCharacters dict) = 4096"
    and "c = buildMapping NewCodec (extractChineseCharacters dict)"
  shows "EncodeToString [CHR 0x00] = ''AA==''
    \<and> paddedText [CHR 0x00] True = ''AA==''
    \<and> segments ''AA=='' = [''AA'', ''=='']
    \<and> pairAt 0 = ''AA''
    \<and> pairToRune c ''AA'' = Some (extractChineseCharacters dict ! 0)
    \<and> emitSegment c ''AA'' = encodeRune (extractChineseCharacters dict ! 0)
    \<and> emitSegment c ''=='' = ''==''
    \<and> encodeData c [CHR 0x00] True = encodeRune (extractChineseCharacters dict ! 0) @ ''==''
    \<and> reconstruct c (encodeData c [CHR 0x00] True) = ''AA==''
    \<and> DecodeString ''AA=='' = Inr [CHR 0x00]
    \<and> decodeData c (encodeData c [CHR 0x00] True) True = Inr [CHR 0x00]"
proof -
  let ?chars = "extractChineseCharacters dict"
  have e: "EncodeToString [CHR 0x00] = ''AA==''"
    by (simp add: Let_def sextet_def encodeStd_def)
  have p: "paddedText [CHR 0x00] True = ''AA==''" unfolding paddedText_base64 by (rule e)
  have p0: "pairAt 0 = ''AA''" by (simp add: pairAt_def base64Charset_def)
  have n: "4096 = min 4096 (length ?chars)" using assms(1) by simp
  have m: "pairToRune c ''AA'' = Some (?chars ! 0)"
    using mapping_facts(1) [OF extract_distinct n assms(2), rule_format, of 0] p0 by simp
  have al: "inAlphabet CHR ''A''" "\<not> inAlphabet CHR ''=''"
    by (simp_all add: inAlphabet_def base64Charset_def)
  have s1: "emitSegment c ''AA'' = encodeRune (?chars ! 0)"
    and s2: "emitSegment c ''=='' = ''==''"
    using al m by (simp_all add: emitSegment_two)
  have enc: "encodeData c [CHR 0x00] True = encodeRune (?chars ! 0) @ ''==''"
    by (simp add: encodeData_def encodeRun_spec p s1 s2)
  have rec: "reconstruct c (encodeData c [CHR 0x00] True) = ''AA==''"
    using round_trip_text [OF extract_distinct extract_qualify assms(2), of "[CHR 0x00]" True]
    unfolding p by simp
  have dec: "DecodeString ''AA=='' = Inr [CHR 0x00]"
    using DecodeString_EncodeToString [of "[CHR 0x00]"] unfolding e .
  have "decodeData c (encodeData c [CHR 0x00] True) True = Inr [CHR 0x00]"
    by (simp add: decodeData_def rec dec)
  then show ?thesis using e p p0 m s1 s2 enc rec dec by simp
qed

theorem C9_scenario_witness:
  "encodeData (buildMapping NewCodec (cjkBlock 4096)) [CHR 0x00] True
     = [CHR 0xE4, CHR 0xB8, CHR 0x80, CHR ''='', CHR ''='']
   \<and> reconstruct (buildMapping NewCodec (cjkBlock 4096))
        [CHR 0xE4, CHR 0xB8, CHR 0x80, CHR ''='', CHR ''=''] = ''AA==''
   \<and> decodeData (buildMapping NewCodec (cjkBlock 4096))
        [CHR 0xE4, CHR 0xB8, CHR 0x80, CHR ''='', CHR ''=''] True = Inr [CHR 0x00]"
proof -
  have x: "extractChineseCharacters (utf8 (cjkBlock 4096)) = cjkBlock 4096"
    by (simp add: extract_cjkBlock)
  have l: "length (extractChineseCharacters (utf8 (cjkBlock 4096))) = 4096"
    unfolding x by (rule length_cjkBlock)
  have c: "buildMapping NewCodec (cjkBlock 4096)
           = buildMapping NewCodec (extractChineseCharacters (utf8 (cjkBlock 4096)))"
    unfolding x ..
  have r: "encodeRune (cjkBlock 4096 ! 0) = [CHR 0xE4, CHR 0xB8, CHR 0x80]"
    by (simp add: nth_cjkBlock encodeRune_def encode3_def char_of_eq_iff)
  note t = C9_scenario [OF l c, unfolded x r]
  from t have 1: "encodeData (buildMapping NewCodec (cjkBlock 4096)) [CHR 0x00] True
     = [CHR 0xE4, CHR 0xB8, CHR 0x80] @ ''==''" by blast
  from t have 2: "reconstruct (buildMapping NewCodec (cjkBlock 4096))
      (encodeData (buildMapping NewCodec (cjkBlock 4096)) [CHR 0x00] True) = ''AA==''" by blast
  from t have 3: "decodeData (buildMapping NewCodec (cjkBlock 4096))
      (encodeData (buildMapping NewCodec (cjkBlock 4096)) [CHR 0x00] True) True = Inr [CHR 0x00]"
    by blast
  show ?thesis using 2 3 unfolding 1 by simp
qed

text \<open>
  Claim C10. For every byte input, the standard base64 text has a length that is a
  multiple of four, hence even: in base64 mode the padding branch of the encoder is
  never taken and the padded text is the base64 text itself. The padding step appends
  its \<^verbatim>\<open>=\<close> exactly when the flag is off and the input has an odd number of bytes.
\<close>

theorem C10_padding_unreachable:
  "4 dvd length (intermediateText data True)
   \<and> even (length (intermediateText data True))
   \<and> paddedText data True = intermediateText data True
   \<and> (paddedText data f \<noteq> intermediateText data f \<longleftrightarrow> \<not> f \<and> odd (length data))
   \<and> (paddedText data f = intermediateText data f @ ''='' \<longleftrightarrow> \<not> f \<and> odd (length data))"
proof -
  have "4 dvd length (EncodeToString data)" by (simp add: length_EncodeToString)
  then show ?thesis
    using even_length_EncodeToString [of data]
    by (cases f) (auto simp: paddedText_def intermediateText_def Let_def)
qed

theorem C10_padding_unreachable_witness:
  "paddedText [CHR 0x00] True = ''AA==''
   \<and> paddedText ''a'' False = ''a=''
   \<and> paddedText ''ab'' False = ''ab''"
  using C10_padding_unreachable [of "[CHR 0x00]" True]
    C10_padding_unreachable [of "''a''" False] C10_padding_unreachable [of "''ab''" False]
  by (simp add: intermediateText_def Let_def sextet_def encodeStd_def)

end
